theory Spec2Isabelle
  imports
    Main
    "HOL-Library.Sublist"
    "HOL-Library.Char_ord"
    "HOL-Library.List_Lexorder"
    "HOL-Library.Product_Lexorder"
    "HOL-Library.AList"
    "HOL-Library.Multiset"
begin

section \<open>Python strings\<close>

text \<open>
  A Python \<open>str\<close> is modelled as a \<^typ>\<open>string\<close>, one \<^typ>\<open>char\<close> per code point, so
  the model covers the code points below 256.  Strings are compared as Python compares
  them: lexicographically, code point by code point.
\<close>

definition NL :: char where
  "NL = CHR 0x0A"

definition isspace :: "char \<Rightarrow> bool" where
  \<comment> \<open>\<open>str.isspace\<close> on the code points below 256.\<close>
  "isspace c = (c \<in> set [CHR 0x09, CHR 0x0A, CHR 0x0B, CHR 0x0C, CHR 0x0D, CHR 0x1C,
                          CHR 0x1D, CHR 0x1E, CHR 0x1F, CHR 0x20, CHR 0x85, CHR 0xA0])"

definition strip :: "string \<Rightarrow> string" where
  "strip s = rev (dropWhile isspace (rev (dropWhile isspace s)))"

definition lower_char :: "char \<Rightarrow> char" where
  "lower_char c =
     (let n = (of_char c :: nat)
      in if (65 \<le> n \<and> n \<le> 90) \<or> (192 \<le> n \<and> n \<le> 222 \<and> n \<noteq> 215)
         then char_of (n + 32) else c)"

definition lower :: "string \<Rightarrow> string" where
  "lower s = map lower_char s"

fun split_str :: "char \<Rightarrow> string \<Rightarrow> string list" where
  \<comment> \<open>\<open>s.split(c)\<close> for a one-character separator: never the empty list.\<close>
  "split_str c [] = [[]]"
| "split_str c (x # xs) =
     (if x = c then [] # split_str c xs
      else (case split_str c xs of [] \<Rightarrow> [[x]] | w # ws \<Rightarrow> (x # w) # ws))"

definition split1 :: "char \<Rightarrow> string \<Rightarrow> string list" where
  \<comment> \<open>\<open>s.split(c, 1)\<close>: at most one split, at the first separator.\<close>
  "split1 c s =
     (if c \<in> set s then [takeWhile (\<lambda>x. x \<noteq> c) s, tl (dropWhile (\<lambda>x. x \<noteq> c) s)]
      else [s])"

fun join :: "string \<Rightarrow> string list \<Rightarrow> string" where
  \<comment> \<open>\<open>sep.join(xs)\<close>\<close>
  "join sep [] = []"
| "join sep [x] = x"
| "join sep (x # y # ys) = x @ sep @ join sep (y # ys)"

fun universal_newlines :: "string \<Rightarrow> string" where
  \<comment> \<open>Text-mode reading: \<open>\r\n\<close> and a lone \<open>\r\<close> both arrive as \<open>\n\<close>.\<close>
  "universal_newlines [] = []"
| "universal_newlines [c] = (if c = CHR 0x0D then [NL] else [c])"
| "universal_newlines (c # d # cs) =
     (if c = CHR 0x0D \<and> d = NL then NL # universal_newlines cs
      else if c = CHR 0x0D then NL # universal_newlines (d # cs)
      else c # universal_newlines (d # cs))"

fun readlines :: "string \<Rightarrow> string list" where
  \<comment> \<open>The lines of a text, each with its terminating newline (the last may lack one).\<close>
  "readlines [] = []"
| "readlines (c # cs) =
     (if c = NL then [c] # readlines cs
      else (case readlines cs of [] \<Rightarrow> [[c]] | l # ls \<Rightarrow> (c # l) # ls))"

section \<open>Association lines\<close>

fun unique_apps :: "string list \<Rightarrow> string set \<Rightarrow> string list \<Rightarrow> string list" where
  \<comment> \<open>The inner loop of \<open>_clean_mime_file\<close>, with its two variables \<open>seen\<close> and
      \<open>unique_apps\<close>.\<close>
  "unique_apps [] seen unique = unique"
| "unique_apps (app # apps) seen unique =
     (if app \<noteq> [] \<and> app \<notin> seen then unique_apps apps (insert app seen) (unique @ [app])
      else unique_apps apps seen unique)"

definition clean_line :: "string \<Rightarrow> string" where
  \<comment> \<open>The body of the loop over the lines in \<open>_clean_mime_file\<close>.\<close>
  "clean_line line =
     (if CHR ''='' \<in> set line \<and> sublist ''.desktop'' line then
        (case split1 CHR ''='' line of
           [key, val] \<Rightarrow>
             (let apps = split_str CHR '';'' val;
                  unique = unique_apps apps {} [];
                  cleaned_value = join '';'' unique;
                  cleaned_value =
                    (if cleaned_value \<noteq> [] \<and> \<not> suffix '';'' cleaned_value
                     then cleaned_value @ '';'' else cleaned_value)
              in key @ ''='' @ cleaned_value)
         | _ \<Rightarrow> line)
      else line)"

definition clean_content :: "string \<Rightarrow> string" where
  \<comment> \<open>What \<open>_clean_mime_file\<close> writes back for the text it read.\<close>
  "clean_content content = join [NL] (map clean_line (split_str NL content))"

definition first_occurrences :: "'a list \<Rightarrow> 'a list" where
  \<comment> \<open>The list's elements in the order of their first occurrences: the element at
      position \<open>i\<close> stays exactly when it does not occur before \<open>i\<close>.\<close>
  "first_occurrences xs =
     map (\<lambda>i. xs ! i) (filter (\<lambda>i. xs ! i \<notin> set (take i xs)) [0..<length xs])"

definition line_key :: "string \<Rightarrow> string" where
  \<comment> \<open>The key of an association line: the text before its first \<open>=\<close>.\<close>
  "line_key line = takeWhile (\<lambda>x. x \<noteq> CHR ''='') line"

definition line_entries :: "string \<Rightarrow> string list" where
  \<comment> \<open>The value of an association line (the text after its first \<open>=\<close>) split on \<open>;\<close>.\<close>
  "line_entries line = split_str CHR '';'' (tl (dropWhile (\<lambda>x. x \<noteq> CHR ''='') line))"

definition kept_entries :: "string \<Rightarrow> string list" where
  \<comment> \<open>The value-list the invariant of an association line describes: the non-empty
      entries, each once, in the order of their first occurrences.\<close>
  "kept_entries line = first_occurrences (filter (\<lambda>a. a \<noteq> []) (line_entries line))"

section \<open>Paths\<close>

text \<open>
  A \<open>pathlib.Path\<close> is modelled by its string, as \<open>str(path)\<close> gives it: absolute, no
  trailing slash except for the root.  Paths are compared as strings, as the source does
  with \<open>str(f).startswith(...)\<close>; symbolic links and \<open>..\<close> components are outside the
  model.
\<close>

definition path_name :: "string \<Rightarrow> string" where
  \<comment> \<open>\<open>path.name\<close>: the final component.\<close>
  "path_name p = rev (takeWhile (\<lambda>c. c \<noteq> CHR ''/'') (rev p))"

definition path_parent :: "string \<Rightarrow> string" where
  \<comment> \<open>\<open>path.parent\<close>\<close>
  "path_parent p =
     (let d = take (length p - length (path_name p)) p
      in if length d \<le> 1 then d else butlast d)"

definition joinpath :: "string \<Rightarrow> string \<Rightarrow> string" where
  \<comment> \<open>\<open>d / n\<close> for a relative \<open>n\<close>\<close>
  "joinpath d n =
     (if n = [] then d
      else if d \<noteq> [] \<and> last d = CHR ''/'' then d @ n
      else d @ ''/'' @ n)"

definition path_suffix :: "string \<Rightarrow> string" where
  \<comment> \<open>\<open>path.suffix\<close>: from the last dot of the name, unless that dot starts or ends
      the name.\<close>
  "path_suffix p =
     (let n = path_name p; ext = rev (takeWhile (\<lambda>c. c \<noteq> CHR ''.'') (rev n))
      in if CHR ''.'' \<in> set n \<and> ext \<noteq> [] \<and> Suc (length ext) < length n
         then CHR ''.'' # ext else [])"

datatype exn = OSError | ValueError | IndexError | CleanerError | BackupError

definition with_suffix :: "string \<Rightarrow> string \<Rightarrow> exn + string" where
  \<comment> \<open>\<open>path.with_suffix(suffix)\<close>, for a suffix that starts with a dot; a path with an
      empty name raises \<open>ValueError\<close>.\<close>
  "with_suffix p suf =
     (if path_name p = [] then Inl ValueError
      else Inr (take (length p - length (path_suffix p)) p @ suf))"

definition fnmatch :: "string \<Rightarrow> string \<Rightarrow> string \<Rightarrow> bool" where
  \<comment> \<open>A name against the pattern \<open>pre*suf\<close>: the star stands for any text, also none
      and also text that starts with a dot.\<close>
  "fnmatch pre suf n = (prefix pre n \<and> suffix suf n \<and> length pre + length suf \<le> length n)"

section \<open>The file system\<close>

text \<open>
  The file system is a table from paths to nodes.  The order of the table is the order in
  which the operating system lists a directory.  Two lists say where the operating system
  refuses an operation: \<open>denied\<close> holds the paths that cannot be written, created, unlinked
  or removed, \<open>unreadable\<close> those that cannot be opened for reading.  A file's content is
  its text; undecodable bytes are outside the model.
\<close>

datatype node = File string | Dir

record filesystem =
  entries :: "(string \<times> node) list"
  denied :: "string list"
  unreadable :: "string list"

definition lookup :: "filesystem \<Rightarrow> string \<Rightarrow> node option" where
  "lookup w p = map_of (entries w) p"

definition exists :: "filesystem \<Rightarrow> string \<Rightarrow> bool" where
  "exists w p = (lookup w p \<noteq> None)"

definition is_dir :: "filesystem \<Rightarrow> string \<Rightarrow> bool" where
  "is_dir w p = (lookup w p = Some Dir)"

definition glob :: "filesystem \<Rightarrow> string \<Rightarrow> string \<Rightarrow> string \<Rightarrow> string list" where
  \<comment> \<open>\<open>list(d.glob("pre*suf"))\<close>: the entries directly in the directory \<open>d\<close> whose name
      matches, each listed once; nothing when \<open>d\<close> is not a directory.\<close>
  "glob w d pre suf =
     (if is_dir w d
      then filter (\<lambda>p. path_parent p = d \<and> path_name p \<noteq> [] \<and> fnmatch pre suf (path_name p))
             (remdups (map fst (entries w)))
      else [])"

definition can_write :: "filesystem \<Rightarrow> string \<Rightarrow> bool" where
  \<comment> \<open>\<open>open(p, 'w')\<close> succeeds: the directory of \<open>p\<close> exists, \<open>p\<close> is not a directory
      and the operating system does not refuse.\<close>
  "can_write w p = (p \<notin> set (denied w) \<and> \<not> is_dir w p \<and> is_dir w (path_parent p))"

definition read_bytes :: "filesystem \<Rightarrow> string \<Rightarrow> exn + string" where
  "read_bytes w p =
     (if p \<in> set (unreadable w) then Inl OSError
      else (case lookup w p of Some (File c) \<Rightarrow> Inr c | _ \<Rightarrow> Inl OSError))"

definition read_text :: "filesystem \<Rightarrow> string \<Rightarrow> exn + string" where
  \<comment> \<open>\<open>open(p, 'r').read()\<close>\<close>
  "read_text w p = (case read_bytes w p of Inl e \<Rightarrow> Inl e | Inr c \<Rightarrow> Inr (universal_newlines c))"

definition write_text :: "filesystem \<Rightarrow> string \<Rightarrow> string \<Rightarrow> exn + filesystem" where
  \<comment> \<open>\<open>open(p, 'w').write(s)\<close>: creates the file or replaces its content.\<close>
  "write_text w p s =
     (if can_write w p then Inr (w\<lparr>entries := AList.update p (File s) (entries w)\<rparr>)
      else Inl OSError)"

definition unlink :: "filesystem \<Rightarrow> string \<Rightarrow> exn + filesystem" where
  \<comment> \<open>\<open>p.unlink()\<close>: removes a file; fails on a directory or a missing path.\<close>
  "unlink w p =
     (if p \<in> set (denied w) then Inl OSError
      else (case lookup w p of
              Some (File c) \<Rightarrow> Inr (w\<lparr>entries := AList.delete p (entries w)\<rparr>)
            | _ \<Rightarrow> Inl OSError))"

definition below :: "string \<Rightarrow> string \<Rightarrow> bool" where
  \<comment> \<open>\<open>p\<close> is the directory \<open>d\<close> or lies in the tree under it.\<close>
  "below d p = (p = d \<or> prefix (d @ ''/'') p)"

definition rmtree :: "filesystem \<Rightarrow> string \<Rightarrow> exn + filesystem" where
  \<comment> \<open>\<open>shutil.rmtree(d)\<close>, taken as all or nothing: it fails, leaving everything in
      place, when \<open>d\<close> is not a directory or the operating system refuses \<open>d\<close> or an
      entry under it; else it removes \<open>d\<close> and the tree under it.\<close>
  "rmtree w d =
     (if \<not> is_dir w d \<or> (\<exists>p\<in>set (d # map fst (entries w)). below d p \<and> p \<in> set (denied w))
      then Inl OSError
      else Inr (w\<lparr>entries := filter (\<lambda>(p, n). \<not> below d p) (entries w)\<rparr>))"

definition copy2 :: "filesystem \<Rightarrow> string \<Rightarrow> string \<Rightarrow> exn + filesystem" where
  \<comment> \<open>\<open>shutil.copy2(src, dst)\<close>: the bytes of \<open>src\<close> as they are; into the directory
      \<open>dst\<close> under the name of \<open>src\<close> when \<open>dst\<close> is a directory.\<close>
  "copy2 w src dst =
     (case read_bytes w src of
        Inl e \<Rightarrow> Inl e
      | Inr c \<Rightarrow>
          (let target = (if is_dir w dst then joinpath dst (path_name src) else dst)
           in if can_write w target
              then Inr (w\<lparr>entries := AList.update target (File c) (entries w)\<rparr>)
              else Inl OSError))"

section \<open>The cleaner\<close>

text \<open>
  \<open>DesktopDuplicateCleaner\<close> after its construction: the dry-run flag, the home
  directory that \<open>Path.home()\<close> returned, the statistics and the warnings and errors
  written to the log.  Every method takes the cleaner and the file system and returns
  both with its result.  An exception is a value \<open>Inl e\<close>.
\<close>

record stats =
  wine_files_removed :: nat
  duplicates_hidden :: nat
  mime_duplicates_cleaned :: nat
  backups_created :: nat

datatype log_entry = LogWarning string | LogError string

record cleaner =
  dry_run :: bool
  home :: string
  stats :: stats
  logged :: "log_entry list"

definition new_cleaner :: "bool \<Rightarrow> string \<Rightarrow> cleaner" where
  "new_cleaner dry h =
     \<lparr>dry_run = dry, home = h,
      stats = \<lparr>wine_files_removed = 0, duplicates_hidden = 0,
               mime_duplicates_cleaned = 0, backups_created = 0\<rparr>,
      logged = []\<rparr>"

definition system_apps_dir :: string where
  "system_apps_dir = ''/usr/share/applications''"

definition user_apps_dir :: "cleaner \<Rightarrow> string" where
  "user_apps_dir c = joinpath (home c) ''.local/share/applications''"

definition user_mime_file :: "cleaner \<Rightarrow> string" where
  "user_mime_file c = joinpath (user_apps_dir c) ''mimeapps.list''"

definition config_mime_file :: "cleaner \<Rightarrow> string" where
  "config_mime_file c = joinpath (home c) ''.config/mimeapps.list''"

definition log_error :: "string \<Rightarrow> cleaner \<Rightarrow> cleaner" where
  "log_error p c = c\<lparr>logged := logged c @ [LogError p]\<rparr>"

definition log_warning :: "string \<Rightarrow> cleaner \<Rightarrow> cleaner" where
  "log_warning p c = c\<lparr>logged := logged c @ [LogWarning p]\<rparr>"

subsection \<open>Reading a launcher file\<close>

record info =
  info_name :: "string option"
  info_no_display :: "bool option"
  info_type :: "string option"

definition empty_info :: info where
  "empty_info = \<lparr>info_name = None, info_no_display = None, info_type = None\<rparr>"

definition parse_line :: "info \<Rightarrow> string \<Rightarrow> info" where
  \<comment> \<open>The body of the loop over the lines in \<open>parse_desktop_file\<close>.\<close>
  "parse_line i raw =
     (let line = strip raw
      in if prefix ''Name='' line then i\<lparr>info_name := Some (split1 CHR ''='' line ! 1)\<rparr>
         else if prefix ''NoDisplay='' line
           then i\<lparr>info_no_display := Some (lower (split1 CHR ''='' line ! 1) = ''true'')\<rparr>
         else if prefix ''Type='' line then i\<lparr>info_type := Some (split1 CHR ''='' line ! 1)\<rparr>
         else i)"

definition parse_lines :: "string list \<Rightarrow> info" where
  "parse_lines ls = foldl parse_line empty_info ls"

definition parse_desktop_file :: "cleaner \<Rightarrow> filesystem \<Rightarrow> string \<Rightarrow> info \<times> cleaner" where
  \<comment> \<open>A file that cannot be read gives a warning and the empty record.\<close>
  "parse_desktop_file c w filepath =
     (case read_text w filepath of
        Inl e \<Rightarrow> (empty_info, log_warning filepath c)
      | Inr t \<Rightarrow> (parse_lines (readlines t), c))"

subsection \<open>Removing the Wine files\<close>

definition remove_wine_file ::
  "string \<Rightarrow> nat \<times> cleaner \<times> filesystem \<Rightarrow> nat \<times> cleaner \<times> filesystem" where
  \<comment> \<open>The body of the loop over the files of one pattern.\<close>
  "remove_wine_file filepath = (\<lambda>(removed_count, c, w).
     if \<not> dry_run c then
       (case unlink w filepath of
          Inr w' \<Rightarrow> (removed_count + 1, c, w')
        | Inl e \<Rightarrow> (removed_count, log_error filepath c, w))
     else (removed_count + 1, c, w))"

definition remove_pattern ::
  "string \<Rightarrow> string \<Rightarrow> nat \<times> cleaner \<times> filesystem \<Rightarrow> nat \<times> cleaner \<times> filesystem" where
  \<comment> \<open>One round of the loop over the patterns: the files are listed first, then removed.\<close>
  "remove_pattern pre suf = (\<lambda>(removed_count, c, w).
     fold remove_wine_file (glob w (user_apps_dir c) pre suf) (removed_count, c, w))"

definition remove_backup_dir ::
  "string \<Rightarrow> nat \<times> cleaner \<times> filesystem \<Rightarrow> nat \<times> cleaner \<times> filesystem" where
  \<comment> \<open>The body of the loop over the backup directories.\<close>
  "remove_backup_dir backup_dir = (\<lambda>(removed_count, c, w).
     if is_dir w backup_dir then
       (let wine_files_in_backup = glob w backup_dir ''wine-'' ''.desktop''
        in if wine_files_in_backup \<noteq> [] then
             (if \<not> dry_run c then
                (case rmtree w backup_dir of
                   Inr w' \<Rightarrow> (removed_count + length wine_files_in_backup, c, w')
                 | Inl e \<Rightarrow> (removed_count, log_error backup_dir c, w))
              else (removed_count + length wine_files_in_backup, c, w))
           else (removed_count, c, w))
     else (removed_count, c, w))"

definition remove_wine_files :: "cleaner \<Rightarrow> filesystem \<Rightarrow> nat \<times> cleaner \<times> filesystem" where
  "remove_wine_files c w =
     (let st1 = remove_pattern ''wine-extension-'' ''.desktop'' (0, c, w);
          st2 = remove_pattern ''wine-protocol-'' ''.desktop'' st1;
          backup_dirs = (case st2 of (n, c2, w2) \<Rightarrow> glob w2 (user_apps_dir c2) ''backup_'' [])
      in case fold remove_backup_dir backup_dirs st2 of
           (removed_count, c3, w3) \<Rightarrow>
             (removed_count, c3\<lparr>stats := (stats c3)\<lparr>wine_files_removed := removed_count\<rparr>\<rparr>, w3))"

subsection \<open>Finding the duplicates\<close>

definition find_desktop_files :: "cleaner \<Rightarrow> filesystem \<Rightarrow> string list" where
  "find_desktop_files c w =
     (if exists w system_apps_dir then glob w system_apps_dir [] ''.desktop'' else []) @
     (if exists w (user_apps_dir c) then glob w (user_apps_dir c) [] ''.desktop'' else [])"

fun add_file :: "string \<Rightarrow> string \<Rightarrow> (string \<times> string list) list \<Rightarrow> (string \<times> string list) list" where
  \<comment> \<open>\<open>name_to_files[name].append(filepath)\<close> on a \<open>defaultdict(list)\<close>, which keeps the
      order in which its keys were first inserted.\<close>
  "add_file n p [] = [(n, [p])]"
| "add_file n p ((k, v) # al) = (if k = n then (k, v @ [p]) # al else (k, v) # add_file n p al)"

definition scan_file ::
  "filesystem \<Rightarrow> string \<Rightarrow> (string \<times> string list) list \<times> cleaner \<Rightarrow> (string \<times> string list) list \<times> cleaner" where
  \<comment> \<open>The body of the loop over the launcher files in \<open>find_duplicate_applications\<close>.\<close>
  "scan_file w filepath = (\<lambda>(name_to_files, c).
     case parse_desktop_file c w filepath of
       (i, c') \<Rightarrow>
         (case info_name i of
            Some n \<Rightarrow>
              if info_type i = Some ''Application'' then
                (if \<not> (case info_no_display i of None \<Rightarrow> False | Some b \<Rightarrow> b)
                 then (add_file n filepath name_to_files, c')
                 else (name_to_files, c'))
              else (name_to_files, c')
          | None \<Rightarrow> (name_to_files, c')))"

definition find_duplicate_applications ::
  "cleaner \<Rightarrow> filesystem \<Rightarrow> (string \<times> string list) list \<times> cleaner" where
  "find_duplicate_applications c w =
     (case fold (scan_file w) (find_desktop_files c w) ([], c) of
        (name_to_files, c') \<Rightarrow> (filter (\<lambda>(n, files). length files > 1) name_to_files, c'))"

subsection \<open>Hiding the duplicates\<close>

definition is_user_file :: "cleaner \<Rightarrow> string \<Rightarrow> bool" where
  \<comment> \<open>\<open>str(f).startswith(str(self.user_apps_dir))\<close>\<close>
  "is_user_file c f = prefix (user_apps_dir c) f"

definition is_system_file :: "string \<Rightarrow> bool" where
  \<comment> \<open>\<open>str(f).startswith(str(self.system_apps_dir))\<close>\<close>
  "is_system_file f = prefix system_apps_dir f"

definition sort_files :: "cleaner \<Rightarrow> string list \<Rightarrow> string list" where
  \<comment> \<open>\<open>sorted(files, key=lambda f: (is-user, str(f)))\<close>; both sorts are stable.\<close>
  "sort_files c files = sort_key (\<lambda>f. (is_user_file c f, f)) files"

definition hide_stub :: "string \<Rightarrow> string" where
  \<comment> \<open>The content that \<open>_create_hide_override\<close> writes.\<close>
  "hide_stub app_name =
     ''[Desktop Entry]'' @ [NL] @ ''Type=Application'' @ [NL] @
     ''Name='' @ app_name @ [NL] @ ''NoDisplay=true'' @ [NL]"

definition create_hide_override ::
  "cleaner \<Rightarrow> filesystem \<Rightarrow> string \<Rightarrow> string \<Rightarrow> string \<Rightarrow> exn + filesystem" where
  "create_hide_override c w system_file local_file app_name =
     (if \<not> dry_run c then
        (case write_text w local_file (hide_stub app_name) of
           Inl e \<Rightarrow> Inl CleanerError
         | Inr w' \<Rightarrow> Inr w')
      else Inr w)"

fun insert_no_display :: "string list \<Rightarrow> string list \<Rightarrow> bool \<Rightarrow> string list \<times> bool" where
  \<comment> \<open>The loop of \<open>_add_no_display\<close> that copies the lines, with its two variables
      \<open>new_lines\<close> and \<open>added_no_display\<close>.\<close>
  "insert_no_display [] new_lines added_no_display = (new_lines, added_no_display)"
| "insert_no_display (line # ls) new_lines added_no_display =
     (if strip line = ''[Desktop Entry]'' \<and> \<not> added_no_display
      then insert_no_display ls (new_lines @ [line] @ [''NoDisplay=true'' @ [NL]]) True
      else insert_no_display ls (new_lines @ [line]) added_no_display)"

definition no_display_lines :: "string list \<Rightarrow> string list" where
  \<comment> \<open>The lines that \<open>_add_no_display\<close> writes for the lines it read.\<close>
  "no_display_lines ls =
     (let ls = filter (\<lambda>line. \<not> prefix ''NoDisplay='' (strip line)) ls
      in case insert_no_display ls [] False of
           (new_lines, added_no_display) \<Rightarrow>
             if \<not> added_no_display
             then new_lines @ [''[Desktop Entry]'' @ [NL]] @ [''NoDisplay=true'' @ [NL]]
             else new_lines)"

definition add_no_display :: "cleaner \<Rightarrow> filesystem \<Rightarrow> string \<Rightarrow> exn + filesystem" where
  "add_no_display c w filepath =
     (if dry_run c then Inr w
      else (case read_text w filepath of
              Inl e \<Rightarrow> Inl CleanerError
            | Inr t \<Rightarrow>
                (case write_text w filepath (concat (no_display_lines (readlines t))) of
                   Inl e \<Rightarrow> Inl CleanerError
                 | Inr w' \<Rightarrow> Inr w')))"

definition hide_one ::
  "string \<Rightarrow> string \<Rightarrow> nat \<times> cleaner \<times> filesystem \<Rightarrow> nat \<times> cleaner \<times> filesystem" where
  \<comment> \<open>The body of the loop over the duplicate files of one application.\<close>
  "hide_one app_name duplicate_file = (\<lambda>(hidden_count, c, w).
     if is_system_file duplicate_file then
       (case create_hide_override c w duplicate_file
               (joinpath (user_apps_dir c) (path_name duplicate_file)) app_name of
          Inr w' \<Rightarrow> (hidden_count + 1, c, w')
        | Inl e \<Rightarrow> (hidden_count, log_error duplicate_file c, w))
     else if is_user_file c duplicate_file then
       (case add_no_display c w duplicate_file of
          Inr w' \<Rightarrow> (hidden_count + 1, c, w')
        | Inl e \<Rightarrow> (hidden_count, log_error duplicate_file c, w))
     else (hidden_count, c, w))"

fun hide_groups ::
  "(string \<times> string list) list \<Rightarrow> nat \<times> cleaner \<times> filesystem
     \<Rightarrow> exn option \<times> nat \<times> cleaner \<times> filesystem" where
  \<comment> \<open>The loop over the applications: \<open>files_sorted[0]\<close> raises \<open>IndexError\<close> on an
      application without files, and what was done before stays done.\<close>
  "hide_groups [] st = (None, st)"
| "hide_groups ((app_name, files) # groups) st =
     (case sort_files (fst (snd st)) files of
        [] \<Rightarrow> (Some IndexError, st)
      | primary_file # duplicate_files \<Rightarrow>
          hide_groups groups (fold (hide_one app_name) duplicate_files st))"

definition hide_duplicate_applications ::
  "cleaner \<Rightarrow> filesystem \<Rightarrow> (string \<times> string list) list \<Rightarrow> (exn + nat) \<times> cleaner \<times> filesystem" where
  "hide_duplicate_applications c w duplicates =
     (case hide_groups duplicates (0, c, w) of
        (Some e, hidden_count, c', w') \<Rightarrow> (Inl e, c', w')
      | (None, hidden_count, c', w') \<Rightarrow>
          (Inr hidden_count, c'\<lparr>stats := (stats c')\<lparr>duplicates_hidden := hidden_count\<rparr>\<rparr>, w'))"

subsection \<open>Cleaning the association files\<close>

definition clean_mime_file ::
  "cleaner \<Rightarrow> filesystem \<Rightarrow> string \<Rightarrow> (exn + bool) \<times> cleaner \<times> filesystem" where
  \<comment> \<open>Every \<open>OSError\<close> leaves as a \<open>BackupError\<close>; what was done before it stays done.\<close>
  "clean_mime_file c w mime_file =
     (case with_suffix mime_file ''.list.bak'' of
        Inl e \<Rightarrow> (Inl e, c, w)
      | Inr backup_file \<Rightarrow>
          (case (if \<not> dry_run c then
                   (case copy2 w mime_file backup_file of
                      Inl e \<Rightarrow> Inl e
                    | Inr w' \<Rightarrow>
                        Inr (c\<lparr>stats := (stats c)\<lparr>backups_created := backups_created (stats c) + 1\<rparr>\<rparr>, w'))
                 else Inr (c, w)) of
             Inl e \<Rightarrow> (Inl BackupError, c, w)
           | Inr (c1, w1) \<Rightarrow>
               (case read_text w1 mime_file of
                  Inl e \<Rightarrow> (Inl BackupError, c1, w1)
                | Inr content \<Rightarrow>
                    if \<not> dry_run c1 then
                      (case write_text w1 mime_file (clean_content content) of
                         Inl e \<Rightarrow> (Inl BackupError, c1, w1)
                       | Inr w2 \<Rightarrow> (Inr True, c1, w2))
                    else (Inr True, c1, w1))))"

definition clean_mime_step ::
  "string \<Rightarrow> nat \<times> cleaner \<times> filesystem \<Rightarrow> nat \<times> cleaner \<times> filesystem" where
  \<comment> \<open>The body of the loop over the two association files.\<close>
  "clean_mime_step mime_file = (\<lambda>(cleaned_count, c, w).
     if exists w mime_file then
       (case clean_mime_file c w mime_file of
          (Inr b, c', w') \<Rightarrow> ((if b then cleaned_count + 1 else cleaned_count), c', w')
        | (Inl e, c', w') \<Rightarrow> (cleaned_count, log_error mime_file c', w'))
     else (cleaned_count, c, w))"

definition clean_mime_duplicates :: "cleaner \<Rightarrow> filesystem \<Rightarrow> nat \<times> cleaner \<times> filesystem" where
  "clean_mime_duplicates c w =
     (case fold clean_mime_step [user_mime_file c, config_mime_file c] (0, c, w) of
        (cleaned_count, c', w') \<Rightarrow>
          (cleaned_count, c'\<lparr>stats := (stats c')\<lparr>mime_duplicates_cleaned := cleaned_count\<rparr>\<rparr>, w'))"

subsection \<open>The whole run\<close>

definition run :: "cleaner \<Rightarrow> filesystem \<Rightarrow> (exn + stats) \<times> cleaner \<times> filesystem" where
  \<comment> \<open>\<open>update_caches\<close> starts two external programs and changes nothing of the model;
      an exception of a stage leaves as a \<open>CleanerError\<close>.\<close>
  "run c w =
     (case remove_wine_files c w of
        (removed, c1, w1) \<Rightarrow>
          (case find_duplicate_applications c1 w1 of
             (duplicates, c2) \<Rightarrow>
               (case hide_duplicate_applications c2 w1 duplicates of
                  (Inl e, c3, w3) \<Rightarrow> (Inl CleanerError, log_error ''Cleanup failed'' c3, w3)
                | (Inr hidden, c3, w3) \<Rightarrow>
                    (case clean_mime_duplicates c3 w3 of
                       (cleaned, c4, w4) \<Rightarrow> (Inr (stats c4), c4, w4)))))"

section \<open>Example states\<close>

text \<open>Concrete cleaners and file systems on which the theorems below are exercised.\<close>

definition ex_cleaner :: cleaner where
  "ex_cleaner = new_cleaner False ''/home/u''"


definition ex_mime_text :: string where
  "ex_mime_text =
     ''[Default Applications]'' @ [NL] @ ''text/plain=a.desktop;a.desktop;;b.desktop''"




definition ex_two_names :: string where
  "ex_two_names =
     ''[Desktop Entry]'' @ [NL] @ ''Name=First'' @ [NL] @ ''Type=Application'' @ [NL] @
     ''Name=Second'' @ [NL]"

definition ex_two_names_fs :: filesystem where
  "ex_two_names_fs =
     \<lparr>entries = [(''/usr/share/applications'', Dir),
                 (''/usr/share/applications/a.desktop'', File ex_two_names)],
      denied = [], unreadable = []\<rparr>"

definition ex_spaced_header :: string where
  "ex_spaced_header = '' [Desktop Entry]'' @ [NL] @ ''Name=X'' @ [NL]"

definition ex_stale_flag :: string where
  "ex_stale_flag =
     ''[Desktop Entry]'' @ [NL] @ ''NoDisplay=false'' @ [NL] @ ''Name=X'' @ [NL]"

definition ex_user_fs :: "string \<Rightarrow> filesystem" where
  "ex_user_fs content =
     \<lparr>entries = [(''/home/u/.local/share/applications'', Dir),
                 (''/home/u/.local/share/applications/x.desktop'', File content)],
      denied = [], unreadable = []\<rparr>"

definition ex_launcher :: "string \<Rightarrow> string \<Rightarrow> string" where
  "ex_launcher app_name rest =
     ''[Desktop Entry]'' @ [NL] @ ''Name='' @ app_name @ [NL] @ ''Type=Application'' @ [NL] @ rest"

definition ex_fs :: filesystem where
  "ex_fs =
     \<lparr>entries =
        [(''/usr/share/applications'', Dir),
         (''/usr/share/applications/firefox.desktop'', File (ex_launcher ''Firefox'' [])),
         (''/usr/share/applications/firefox-esr.desktop'', File (ex_launcher ''Firefox'' [])),
         (''/usr/share/applications/gedit.desktop'', File (ex_launcher ''Text Editor'' [])),
         (''/home/u/.local/share/applications'', Dir),
         (''/home/u/.local/share/applications/firefox.desktop'',
            File (ex_launcher ''Firefox'' (''NoDisplay=false'' @ [NL]))),
         (''/home/u/.local/share/applications/wine-extension-txt.desktop'',
            File (ex_launcher ''Text Editor'' [])),
         (''/home/u/.local/share/applications/wine-protocol-http.desktop'',
            File (ex_launcher ''Browser'' [])),
         (''/home/u/.local/share/applications/backup_old'', Dir),
         (''/home/u/.local/share/applications/backup_old/wine-x.desktop'',
            File (ex_launcher ''X'' [])),
         (''/home/u/.local/share/applications/backup_old/notes.txt'', File ''keep''),
         (''/home/u/.local/share/applications/mimeapps.list'', File ex_mime_text),
         (''/home/u/.config'', Dir),
         (''/home/u/.config/mimeapps.list'', File ex_mime_text)],
      denied = [], unreadable = []\<rparr>"




section \<open>Notions used to state the properties\<close>

definition key_lines :: "string \<Rightarrow> string list \<Rightarrow> string list" where
  \<comment> \<open>The stripped lines that begin with the given key, in file order.\<close>
  "key_lines k ls = filter (prefix k) (map strip ls)"

definition is_no_display_line :: "string \<Rightarrow> bool" where
  \<comment> \<open>The stripped form of the line begins with \<open>NoDisplay=\<close>.\<close>
  "is_no_display_line l = prefix ''NoDisplay='' (strip l)"

definition is_header_line :: "string \<Rightarrow> bool" where
  \<comment> \<open>The stripped form of the line is \<open>[Desktop Entry]\<close>.\<close>
  "is_header_line l = (strip l = ''[Desktop Entry]'')"

definition other_lines :: "string list \<Rightarrow> string list" where
  \<comment> \<open>The lines that are not \<open>NoDisplay=\<close> lines, in file order.\<close>
  "other_lines ls = filter (\<lambda>l. \<not> is_no_display_line l) ls"

definition no_display_true :: string where
  "no_display_true = ''NoDisplay=true'' @ [NL]"

definition desktop_entry_header :: string where
  "desktop_entry_header = ''[Desktop Entry]'' @ [NL]"

definition hide_target :: "cleaner \<Rightarrow> string \<Rightarrow> string" where
  \<comment> \<open>The one path that hiding a record may write: the file of the same name under the
      user's directory for a system record, the record's own file otherwise.\<close>
  "hide_target c d =
     (if is_system_file d then joinpath (user_apps_dir c) (path_name d) else d)"


definition home_slash :: "cleaner \<Rightarrow> string" where
  \<comment> \<open>The home directory with its separator: every path the cleaner derives from the home
      directory starts with it.\<close>
  "home_slash c = (if home c \<noteq> [] \<and> last (home c) = CHR ''/'' then home c else home c @ ''/'')"

section \<open>Properties of the string functions\<close>


lemma upt_0_Suc_map: "[0..<Suc n] = 0 # map Suc [0..<n]"
  by (simp add: upt_conv_Cons map_Suc_upt del: upt_Suc)

lemma first_occurrences_Nil: "first_occurrences [] = []"
  by (simp add: first_occurrences_def)

lemma first_occurrences_Cons:
  "first_occurrences (x # xs) = x # filter (\<lambda>y. y \<noteq> x) (first_occurrences xs)"
proof -
  have "first_occurrences (x # xs) =
        x # map (\<lambda>i. xs ! i) (filter (\<lambda>i. xs ! i \<noteq> x \<and> xs ! i \<notin> set (take i xs)) [0..<length xs])"
    unfolding first_occurrences_def length_Cons upt_0_Suc_map
    by (simp add: filter_map o_def del: upt_Suc)
  also have "\<dots> = x # filter (\<lambda>y. y \<noteq> x) (first_occurrences xs)"
    unfolding first_occurrences_def by (simp add: filter_map o_def conj_commute)
  finally show ?thesis .
qed

lemma set_first_occurrences: "set (first_occurrences xs) = set xs"
  by (induction xs) (auto simp: first_occurrences_Nil first_occurrences_Cons)

lemma distinct_first_occurrences: "distinct (first_occurrences xs)"
  by (induction xs) (auto simp: first_occurrences_Nil first_occurrences_Cons)


lemma unique_apps_gen:
  "unique_apps apps seen unique =
     unique @ filter (\<lambda>a. a \<notin> seen) (first_occurrences (filter (\<lambda>a. a \<noteq> []) apps))"
proof (induction apps arbitrary: seen unique)
  case Nil
  then show ?case by (simp add: first_occurrences_Nil)
next
  case (Cons app apps)
  show ?case
  proof (cases "app \<noteq> [] \<and> app \<notin> seen")
    case True
    have "(\<lambda>a. a \<notin> seen \<and> a \<noteq> app) = (\<lambda>a. a \<noteq> app \<and> a \<notin> seen)" by auto
    with True show ?thesis
      by (simp add: Cons.IH first_occurrences_Cons)
  next
    case False
    then consider "app = []" | "app \<noteq> []" "app \<in> seen" by blast
    then show ?thesis
    proof cases
      case 1
      then show ?thesis by (simp add: Cons.IH)
    next
      case 2
      have "filter (\<lambda>a. a \<notin> seen) (filter (\<lambda>y. y \<noteq> app) ys) = filter (\<lambda>a. a \<notin> seen) ys" for ys
        using 2 by (induction ys) auto
      with 2 show ?thesis by (simp add: Cons.IH first_occurrences_Cons)
    qed
  qed
qed

lemma unique_apps_first_occurrences:
  "unique_apps apps {} [] = first_occurrences (filter (\<lambda>a. a \<noteq> []) apps)"
  by (simp add: unique_apps_gen)


lemma split_str_no_sep: "w \<in> set (split_str c s) \<Longrightarrow> c \<notin> set w"
  by (induction s arbitrary: w) (auto split: list.splits if_splits)



lemma split_str_append_sep:
  "c \<notin> set w \<Longrightarrow> split_str c (w @ c # s) = w # split_str c s"
  by (induction w) auto



lemma split_str_concat_sep:
  "\<forall>x\<in>set xs. c \<notin> set x \<Longrightarrow> split_str c (concat (map (\<lambda>a. a @ [c]) xs)) = xs @ [[]]"
  by (induction xs) (auto simp: split_str_append_sep)



lemma takeWhile_no_sep: "c \<notin> set (takeWhile (\<lambda>x. x \<noteq> c) s)"
  by (induction s) auto

lemma takeWhile_append_sep: "c \<notin> set k \<Longrightarrow> takeWhile (\<lambda>x. x \<noteq> c) (k @ c # v) = k"
  by (induction k) auto

lemma dropWhile_append_sep: "c \<notin> set k \<Longrightarrow> dropWhile (\<lambda>x. x \<noteq> c) (k @ c # v) = c # v"
  by (induction k) auto

lemma split1_append: "c \<notin> set k \<Longrightarrow> split1 c (k @ c # v) = [k, v]"
  by (induction k) (auto simp: split1_def)

lemma join_nonempty: "xs \<noteq> [] \<Longrightarrow> [] \<notin> set xs \<Longrightarrow> join sep xs \<noteq> []"
  by (induction sep xs rule: join.induct) auto

lemma last_join:
  "xs \<noteq> [] \<Longrightarrow> [] \<notin> set xs \<Longrightarrow> last (join sep xs) = last (last xs)"
proof (induction sep xs rule: join.induct)
  case (3 sep x y ys)
  then have "join sep (y # ys) \<noteq> []" by (intro join_nonempty) auto
  with 3 show ?case by simp
qed simp_all

lemma join_snoc_sep: "xs \<noteq> [] \<Longrightarrow> join sep xs @ sep = concat (map (\<lambda>a. a @ sep) xs)"
  by (induction sep xs rule: join.induct) auto

lemma suffix_single: "suffix [c] s = (s \<noteq> [] \<and> last s = c)"
  by (cases s rule: rev_cases) (auto simp: suffix_def)

lemma cleaned_value_eq:
  assumes "[] \<notin> set U" and "\<forall>a\<in>set U. c \<notin> set a"
  shows "(if join [c] U \<noteq> [] \<and> \<not> suffix [c] (join [c] U) then join [c] U @ [c] else join [c] U)
           = concat (map (\<lambda>a. a @ [c]) U)"
proof (cases "U = []")
  case True
  then show ?thesis by simp
next
  case False
  from False assms(1) have ne: "join [c] U \<noteq> []" by (rule join_nonempty)
  from False assms(1) have "last (join [c] U) = last (last U)" by (rule last_join)
  moreover from False have "last U \<in> set U" by simp
  with assms have "last U \<noteq> []" "c \<notin> set (last U)" by auto
  then have "last (last U) \<noteq> c" by (metis last_in_set)
  ultimately have "\<not> suffix [c] (join [c] U)" by (simp add: suffix_single)
  with ne False show ?thesis by (simp add: join_snoc_sep)
qed

lemma kept_entries_props:
  "distinct (kept_entries line)" "[] \<notin> set (kept_entries line)"
  "\<forall>a\<in>set (kept_entries line). CHR '';'' \<notin> set a"
  "set (kept_entries line) = set (line_entries line) - {[]}"
  by (auto simp: kept_entries_def distinct_first_occurrences set_first_occurrences
        line_entries_def dest: split_str_no_sep)

lemma clean_line_signature:
  assumes "CHR ''='' \<in> set line" and "sublist ''.desktop'' line"
  shows "clean_line line = line_key line @ ''='' @ concat (map (\<lambda>a. a @ '';'') (kept_entries line))"
proof -
  have s1: "split1 CHR ''='' line = [line_key line, tl (dropWhile (\<lambda>x. x \<noteq> CHR ''='') line)]"
    using assms(1) by (simp add: split1_def line_key_def)
  have u: "unique_apps (line_entries line) {} [] = kept_entries line"
    by (simp add: unique_apps_first_occurrences kept_entries_def)
  have "clean_line line = line_key line @ ''='' @
          (if join '';'' (kept_entries line) \<noteq> [] \<and> \<not> suffix '';'' (join '';'' (kept_entries line))
           then join '';'' (kept_entries line) @ '';'' else join '';'' (kept_entries line))"
    using assms by (simp add: clean_line_def s1 Let_def u[unfolded line_entries_def])
  then show ?thesis
    by (simp only: cleaned_value_eq[OF kept_entries_props(2,3)])
qed

lemma clean_line_other:
  "\<not> (CHR ''='' \<in> set line \<and> sublist ''.desktop'' line) \<Longrightarrow> clean_line line = line"
  by (auto simp: clean_line_def)








section \<open>Association lines: the cleaned value-list\<close>

lemma line_key_clean_line:
  assumes "CHR ''='' \<in> set line" and "sublist ''.desktop'' line"
  shows "line_key (clean_line line) = line_key line"
proof -
  have "CHR ''='' \<notin> set (line_key line)"
    by (simp add: line_key_def takeWhile_no_sep)
  then show ?thesis
    using assms by (simp add: clean_line_signature) (simp add: line_key_def takeWhile_append_sep)
qed

lemma line_entries_clean_line:
  assumes "CHR ''='' \<in> set line" and "sublist ''.desktop'' line"
  shows "line_entries (clean_line line) = kept_entries line @ [[]]"
proof -
  have k: "CHR ''='' \<notin> set (line_key line)"
    by (simp add: line_key_def takeWhile_no_sep)
  have "tl (dropWhile (\<lambda>x. x \<noteq> CHR ''='')
          (line_key line @ CHR ''='' # concat (map (\<lambda>a. a @ '';'') (kept_entries line))))
        = concat (map (\<lambda>a. a @ '';'') (kept_entries line))"
    using k by (simp add: dropWhile_append_sep)
  then show ?thesis
    using assms kept_entries_props(3)[of line]
      split_str_concat_sep[of "kept_entries line" "CHR '';''"]
    by (simp add: clean_line_signature line_entries_def)
qed

lemma suffix_clean_line:
  assumes "CHR ''='' \<in> set line" and "sublist ''.desktop'' line"
  shows "suffix '';'' (clean_line line) = (kept_entries line \<noteq> [])"
proof (cases "kept_entries line" rule: rev_cases)
  case Nil
  with assms show ?thesis by (simp add: clean_line_signature suffix_single)
next
  case (snoc ys y)
  with assms show ?thesis by (simp add: clean_line_signature suffix_single)
qed

text \<open>
  Claim C2.  A line of an association file that contains both \<open>=\<close> and \<open>.desktop\<close> is
  rewritten to its key, \<open>=\<close>, and each kept entry followed by \<open>;\<close>.  The kept entries are
  the non-empty entries of the input value in the order of their first occurrences: no
  entry is empty, none occurs twice, and every non-empty input entry is among them.  The
  key stays; splitting the new value on \<open>;\<close> gives the kept entries and, after the
  trailing separator, one empty tail; the line ends with \<open>;\<close> exactly when an entry is
  kept.  The line \<open>Key=a.desktop;b.desktop;a.desktop;;c.desktop\<close> becomes
  \<open>Key=a.desktop;b.desktop;c.desktop;\<close>, and a line without \<open>=\<close> or without \<open>.desktop\<close>
  is left as it is.
\<close>

theorem clean_line_value_list:
  "(CHR ''='' \<in> set line \<and> sublist ''.desktop'' line \<longrightarrow>
      clean_line line = line_key line @ ''='' @ concat (map (\<lambda>a. a @ '';'') (kept_entries line))
      \<and> line_key (clean_line line) = line_key line
      \<and> line_entries (clean_line line) = kept_entries line @ [[]]
      \<and> distinct (kept_entries line)
      \<and> [] \<notin> set (kept_entries line)
      \<and> set (kept_entries line) = set (line_entries line) - {[]}
      \<and> kept_entries line = first_occurrences (filter (\<lambda>a. a \<noteq> []) (line_entries line))
      \<and> suffix '';'' (clean_line line) = (kept_entries line \<noteq> []))
   \<and> (\<not> (CHR ''='' \<in> set line \<and> sublist ''.desktop'' line) \<longrightarrow> clean_line line = line)
   \<and> clean_line ''Key=a.desktop;b.desktop;a.desktop;;c.desktop''
         = ''Key=a.desktop;b.desktop;c.desktop;''"
proof (intro conjI impI)
  assume sig: "CHR ''='' \<in> set line \<and> sublist ''.desktop'' line"
  then show "clean_line line
      = line_key line @ ''='' @ concat (map (\<lambda>a. a @ '';'') (kept_entries line))"
    by (simp add: clean_line_signature)
  from sig show "line_key (clean_line line) = line_key line"
    by (simp add: line_key_clean_line)
  from sig show "line_entries (clean_line line) = kept_entries line @ [[]]"
    by (simp add: line_entries_clean_line)
  show "distinct (kept_entries line)" by (rule kept_entries_props)
  show "[] \<notin> set (kept_entries line)" by (rule kept_entries_props)
  show "set (kept_entries line) = set (line_entries line) - {[]}" by (rule kept_entries_props)
  show "kept_entries line = first_occurrences (filter (\<lambda>a. a \<noteq> []) (line_entries line))"
    by (rule kept_entries_def)
  from sig show "suffix '';'' (clean_line line) = (kept_entries line \<noteq> [])"
    by (simp add: suffix_clean_line)
next
  assume "\<not> (CHR ''='' \<in> set line \<and> sublist ''.desktop'' line)"
  then show "clean_line line = line" by (rule clean_line_other)
next
  show "clean_line ''Key=a.desktop;b.desktop;a.desktop;;c.desktop''
         = ''Key=a.desktop;b.desktop;c.desktop;''"
    by code_simp
qed

theorem clean_line_value_list_witness:
  "CHR ''='' \<in> set ''Key=a.desktop;b.desktop;a.desktop;;c.desktop''
   \<and> sublist ''.desktop'' ''Key=a.desktop;b.desktop;a.desktop;;c.desktop''
   \<and> kept_entries ''Key=a.desktop;b.desktop;a.desktop;;c.desktop''
        = [''a.desktop'', ''b.desktop'', ''c.desktop'']
   \<and> line_key (clean_line ''Key=a.desktop;b.desktop;a.desktop;;c.desktop'') = ''Key''
   \<and> line_entries (clean_line ''Key=a.desktop;b.desktop;a.desktop;;c.desktop'')
        = [''a.desktop'', ''b.desktop'', ''c.desktop'', []]
   \<and> \<not> sublist ''.desktop'' ''[Added Associations]''
   \<and> clean_line ''[Added Associations]'' = ''[Added Associations]''"
proof -
  have h: "CHR ''='' \<in> set ''Key=a.desktop;b.desktop;a.desktop;;c.desktop''
      \<and> sublist ''.desktop'' ''Key=a.desktop;b.desktop;a.desktop;;c.desktop''"
    by code_simp
  have k: "kept_entries ''Key=a.desktop;b.desktop;a.desktop;;c.desktop''
        = [''a.desktop'', ''b.desktop'', ''c.desktop'']"
    by code_simp
  have lk: "line_key ''Key=a.desktop;b.desktop;a.desktop;;c.desktop'' = ''Key''"
    by code_simp
  have n: "\<not> sublist ''.desktop'' ''[Added Associations]''"
    by code_simp
  from clean_line_value_list[of "''Key=a.desktop;b.desktop;a.desktop;;c.desktop''"] h
  have "line_key (clean_line ''Key=a.desktop;b.desktop;a.desktop;;c.desktop'')
          = line_key ''Key=a.desktop;b.desktop;a.desktop;;c.desktop''"
    and "line_entries (clean_line ''Key=a.desktop;b.desktop;a.desktop;;c.desktop'')
          = kept_entries ''Key=a.desktop;b.desktop;a.desktop;;c.desktop'' @ [[]]"
    by blast+
  moreover from clean_line_value_list[of "''[Added Associations]''"] n
  have "clean_line ''[Added Associations]'' = ''[Added Associations]''"
    by blast
  ultimately show ?thesis using h k lk n by simp
qed

section \<open>Cleaning an association file twice\<close>







lemma lookup_update: "lookup (w\<lparr>entries := AList.update p n (entries w)\<rparr>) q = (if q = p then Some n else lookup w q)"
  by (simp add: lookup_def update_conv')





lemma write_text_unreadable: "write_text w p s = Inr w' \<Longrightarrow> unreadable w' = unreadable w"
  by (auto simp: write_text_def split: if_splits)





section \<open>Reading a launcher file: which line gives a field\<close>


lemma parse_lines_snoc: "parse_lines (ls @ [l]) = parse_line (parse_lines ls) l"
  by (simp add: parse_lines_def)

lemma split1_value:
  assumes "prefix (k @ ''='') line" and "CHR ''='' \<notin> set k"
  shows "split1 CHR ''='' line ! 1 = drop (Suc (length k)) line"
proof -
  from assms(1) obtain r where "line = k @ CHR ''='' # r" by (auto simp: prefix_def)
  with assms(2) show ?thesis by (simp add: split1_append)
qed

lemma keys_exclusive:
  "prefix ''Name='' s \<Longrightarrow> \<not> prefix ''NoDisplay='' s"
  "prefix ''Name='' s \<Longrightarrow> \<not> prefix ''Type='' s"
  "prefix ''NoDisplay='' s \<Longrightarrow> \<not> prefix ''Type='' s"
  by (auto simp: prefix_def)

lemma parse_line_name:
  "info_name (parse_line i l) =
     (if prefix ''Name='' (strip l) then Some (drop (length ''Name='') (strip l)) else info_name i)"
  using split1_value[of "''Name''" "strip l"]
  by (auto simp: parse_line_def Let_def dest: keys_exclusive)

lemma parse_line_no_display:
  "info_no_display (parse_line i l) =
     (if prefix ''NoDisplay='' (strip l) then Some (lower (drop (length ''NoDisplay='') (strip l)) = ''true'')
      else info_no_display i)"
  using split1_value[of "''NoDisplay''" "strip l"]
  by (auto simp: parse_line_def Let_def dest: keys_exclusive)

lemma parse_line_type:
  "info_type (parse_line i l) =
     (if prefix ''Type='' (strip l) then Some (drop (length ''Type='') (strip l)) else info_type i)"
  using split1_value[of "''Type''" "strip l"]
  by (auto simp: parse_line_def Let_def dest: keys_exclusive)

lemma parse_lines_name:
  "info_name (parse_lines ls) =
     (if key_lines ''Name='' ls = [] then None else Some (drop (length ''Name='') (last (key_lines ''Name='' ls))))"
proof (induction ls rule: rev_induct)
  case Nil
  then show ?case by (simp add: parse_lines_def empty_info_def key_lines_def)
next
  case (snoc l ls)
  then show ?case
    by (simp add: parse_lines_snoc parse_line_name key_lines_def)
qed

lemma parse_lines_no_display:
  "info_no_display (parse_lines ls) =
     (if key_lines ''NoDisplay='' ls = [] then None
      else Some (lower (drop (length ''NoDisplay='') (last (key_lines ''NoDisplay='' ls))) = ''true''))"
proof (induction ls rule: rev_induct)
  case Nil
  then show ?case by (simp add: parse_lines_def empty_info_def key_lines_def)
next
  case (snoc l ls)
  then show ?case
    by (simp add: parse_lines_snoc parse_line_no_display key_lines_def)
qed

lemma parse_lines_type:
  "info_type (parse_lines ls) =
     (if key_lines ''Type='' ls = [] then None else Some (drop (length ''Type='') (last (key_lines ''Type='' ls))))"
proof (induction ls rule: rev_induct)
  case Nil
  then show ?case by (simp add: parse_lines_def empty_info_def key_lines_def)
next
  case (snoc l ls)
  then show ?case
    by (simp add: parse_lines_snoc parse_line_type key_lines_def)
qed

text \<open>
  Claim C4, as stated, fails: the extractor does not keep the value of the first line
  that begins with a key.  In the file below two lines begin with \<open>Name=\<close>, and the
  record holds the value of the second one.
\<close>

theorem parse_first_wins_counterexample:
  "key_lines ''Name='' (readlines ex_two_names) = [''Name=First'', ''Name=Second'']
   \<and> info_name (parse_lines (readlines ex_two_names)) = Some ''Second''
   \<and> info_name (parse_lines (readlines ex_two_names)) \<noteq> Some ''First''"
  by code_simp

text \<open>
  Claim C4, amended.  Each line that begins with a recognized key overwrites the field, so
  the field holds the value of the last line of the file that begins with the key
  (\<open>Name=\<close>, \<open>NoDisplay=\<close> or \<open>Type=\<close>), and is absent when no line does; every
  earlier line with the same key is overwritten.  For a file that can be read, the
  extractor returns this record for the file's lines.
\<close>

theorem parse_lines_last_wins:
  "info_name (parse_lines ls) =
     (if key_lines ''Name='' ls = [] then None else Some (drop (length ''Name='') (last (key_lines ''Name='' ls))))
   \<and> info_no_display (parse_lines ls) =
     (if key_lines ''NoDisplay='' ls = [] then None
      else Some (lower (drop (length ''NoDisplay='') (last (key_lines ''NoDisplay='' ls))) = ''true''))
   \<and> info_type (parse_lines ls) =
     (if key_lines ''Type='' ls = [] then None else Some (drop (length ''Type='') (last (key_lines ''Type='' ls))))
   \<and> (read_text w filepath = Inr t \<longrightarrow>
        fst (parse_desktop_file c w filepath) = parse_lines (readlines t))"
  by (simp add: parse_lines_name parse_lines_no_display parse_lines_type parse_desktop_file_def)

theorem parse_lines_last_wins_witness:
  "read_text ex_two_names_fs ''/usr/share/applications/a.desktop'' = Inr ex_two_names
   \<and> fst (parse_desktop_file ex_cleaner ex_two_names_fs ''/usr/share/applications/a.desktop'')
        = parse_lines (readlines ex_two_names)
   \<and> last (key_lines ''Name='' (readlines ex_two_names)) = ''Name=Second''
   \<and> info_name (parse_lines (readlines ex_two_names)) = Some ''Second''
   \<and> info_no_display (parse_lines (readlines ex_two_names)) = None
   \<and> info_type (parse_lines (readlines ex_two_names)) = Some ''Application''"
proof -
  have r: "read_text ex_two_names_fs ''/usr/share/applications/a.desktop'' = Inr ex_two_names"
    by code_simp
  have k: "key_lines ''Name='' (readlines ex_two_names) = [''Name=First'', ''Name=Second'']"
    "key_lines ''NoDisplay='' (readlines ex_two_names) = []"
    "key_lines ''Type='' (readlines ex_two_names) = [''Type=Application'']"
    by code_simp+
  note t = parse_lines_last_wins[of "readlines ex_two_names" ex_two_names_fs
      "''/usr/share/applications/a.desktop''" ex_two_names ex_cleaner]
  from t r k show ?thesis by simp
qed

section \<open>Marking a user's launcher file as hidden\<close>


lemma insert_no_display_eq:
  "insert_no_display ls acc added =
     (if added \<or> \<not> (\<exists>l\<in>set ls. is_header_line l) then (acc @ ls, added)
      else (acc @ takeWhile (\<lambda>l. \<not> is_header_line l) ls
              @ [hd (dropWhile (\<lambda>l. \<not> is_header_line l) ls), no_display_true]
              @ tl (dropWhile (\<lambda>l. \<not> is_header_line l) ls), True))"
proof (induction ls arbitrary: acc added)
  case Nil
  then show ?case by simp
next
  case (Cons l ls)
  show ?case
  proof (cases "is_header_line l \<and> \<not> added")
    case True
    then show ?thesis
      by (simp add: Cons.IH is_header_line_def no_display_true_def)
  next
    case False
    then show ?thesis
      by (auto simp: Cons.IH is_header_line_def)
  qed
qed

lemma no_display_lines_eq:
  "no_display_lines ls =
     (if \<exists>l\<in>set (other_lines ls). is_header_line l
      then takeWhile (\<lambda>l. \<not> is_header_line l) (other_lines ls)
             @ [hd (dropWhile (\<lambda>l. \<not> is_header_line l) (other_lines ls)), no_display_true]
             @ tl (dropWhile (\<lambda>l. \<not> is_header_line l) (other_lines ls))
      else other_lines ls @ [desktop_entry_header, no_display_true])"
  by (simp add: no_display_lines_def insert_no_display_eq other_lines_def[symmetric]
       is_no_display_line_def[symmetric] no_display_true_def desktop_entry_header_def Let_def)

lemma no_display_true_is: "is_no_display_line no_display_true"
  by code_simp

lemma desktop_entry_header_is:
  "\<not> is_no_display_line desktop_entry_header" "is_header_line desktop_entry_header"
  by code_simp+

lemma other_lines_none: "filter is_no_display_line (other_lines ls) = []"
  by (simp add: other_lines_def)

lemma other_lines_all: "filter (\<lambda>l. \<not> is_no_display_line l) (other_lines ls) = other_lines ls"
  by (simp add: other_lines_def)

lemma split_at_header:
  assumes "\<exists>l\<in>set xs. is_header_line l"
  shows "xs = takeWhile (\<lambda>l. \<not> is_header_line l) xs
            @ hd (dropWhile (\<lambda>l. \<not> is_header_line l) xs)
            # tl (dropWhile (\<lambda>l. \<not> is_header_line l) xs)"
proof -
  from assms have "dropWhile (\<lambda>l. \<not> is_header_line l) xs \<noteq> []"
    by (auto simp: dropWhile_eq_Nil_conv)
  then show ?thesis by simp
qed

lemma no_display_lines_flag: "filter is_no_display_line (no_display_lines ls) = [no_display_true]"
proof (cases "\<exists>l\<in>set (other_lines ls). is_header_line l")
  case True
  define pre where "pre = takeWhile (\<lambda>l. \<not> is_header_line l) (other_lines ls)"
  define h where "h = hd (dropWhile (\<lambda>l. \<not> is_header_line l) (other_lines ls))"
  define post where "post = tl (dropWhile (\<lambda>l. \<not> is_header_line l) (other_lines ls))"
  have o: "other_lines ls = pre @ h # post"
    using split_at_header[OF True] by (simp add: pre_def h_def post_def)
  from other_lines_none[of ls] have "filter is_no_display_line (pre @ h # post) = []"
    by (simp add: o)
  then have "filter is_no_display_line pre = []" "\<not> is_no_display_line h"
    "filter is_no_display_line post = []"
    by (auto split: if_splits)
  moreover have "no_display_lines ls = pre @ [h, no_display_true] @ post"
    using True by (simp add: no_display_lines_eq pre_def h_def post_def)
  ultimately show ?thesis by (simp add: no_display_true_is)
next
  case False
  then show ?thesis
    by (simp add: no_display_lines_eq other_lines_none no_display_true_is desktop_entry_header_is)
qed

lemma no_display_lines_others:
  "filter (\<lambda>l. \<not> is_no_display_line l) (no_display_lines ls) =
     (if \<exists>l\<in>set (other_lines ls). is_header_line l then other_lines ls
      else other_lines ls @ [desktop_entry_header])"
proof (cases "\<exists>l\<in>set (other_lines ls). is_header_line l")
  case True
  define pre where "pre = takeWhile (\<lambda>l. \<not> is_header_line l) (other_lines ls)"
  define h where "h = hd (dropWhile (\<lambda>l. \<not> is_header_line l) (other_lines ls))"
  define post where "post = tl (dropWhile (\<lambda>l. \<not> is_header_line l) (other_lines ls))"
  have o: "other_lines ls = pre @ h # post"
    using split_at_header[OF True] by (simp add: pre_def h_def post_def)
  have n: "no_display_lines ls = pre @ [h, no_display_true] @ post"
    using True by (simp add: no_display_lines_eq pre_def h_def post_def)
  have "filter (\<lambda>l. \<not> is_no_display_line l) (pre @ [h, no_display_true] @ post)
      = filter (\<lambda>l. \<not> is_no_display_line l) (pre @ h # post)"
    by (simp add: no_display_true_is)
  also have "\<dots> = pre @ h # post"
    using other_lines_all[of ls] by (simp only: o)
  finally show ?thesis using True by (simp add: n o)
next
  case False
  then show ?thesis
    by (simp add: no_display_lines_eq other_lines_all no_display_true_is desktop_entry_header_is)
qed

lemma add_no_display_ok:
  assumes "\<not> dry_run c" and "read_text w p = Inr t" and "can_write w p"
  shows "add_no_display c w p
     = Inr (w\<lparr>entries := AList.update p (File (concat (no_display_lines (readlines t)))) (entries w)\<rparr>)"
  using assms by (simp add: add_no_display_def write_text_def)

text \<open>
  Claim C9, as stated, fails: the flag is not inserted after the first line that is
  exactly \<open>[Desktop Entry]\<close>.  The header is recognized on the stripped line.  In the
  file below the only header line starts with a space, so no line is exactly
  \<open>[Desktop Entry]\<close>; the claim asks for the header and the flag at the end of the file,
  and the code inserts the flag after the first line and appends nothing.
\<close>

theorem header_exact_counterexample:
  "readlines ex_spaced_header = ['' [Desktop Entry]'' @ [NL], ''Name=X'' @ [NL]]
   \<and> '' [Desktop Entry]'' @ [NL] \<noteq> ''[Desktop Entry]'' @ [NL]
   \<and> no_display_lines (readlines ex_spaced_header)
        = ['' [Desktop Entry]'' @ [NL], ''NoDisplay=true'' @ [NL], ''Name=X'' @ [NL]]
   \<and> no_display_lines (readlines ex_spaced_header)
        \<noteq> ['' [Desktop Entry]'' @ [NL], ''Name=X'' @ [NL],
            ''[Desktop Entry]'' @ [NL], ''NoDisplay=true'' @ [NL]]
   \<and> \<not> isl (add_no_display ex_cleaner (ex_user_fs ex_spaced_header)
               ''/home/u/.local/share/applications/x.desktop'')
   \<and> lookup (projr (add_no_display ex_cleaner (ex_user_fs ex_spaced_header)
               ''/home/u/.local/share/applications/x.desktop''))
         ''/home/u/.local/share/applications/x.desktop''
        = Some (File ('' [Desktop Entry]'' @ [NL] @ ''NoDisplay=true'' @ [NL] @ ''Name=X'' @ [NL]))"
  by code_simp

text \<open>
  Claim C9, amended.  \<open>_add_no_display\<close> works on the lines it read, each with its line
  terminator.  It drops every line whose stripped form begins with \<open>NoDisplay=\<close> and
  puts one \<open>NoDisplay=true\<close> line directly after the first remaining line whose
  stripped form is \<open>[Desktop Entry]\<close>; when no remaining line has that stripped form,
  it appends a \<open>[Desktop Entry]\<close> line and a \<open>NoDisplay=true\<close> line.  The lines it
  writes hold exactly one line whose stripped form begins with \<open>NoDisplay=\<close>, the
  inserted one, and all the other lines of the file in their order.  When the file can
  be read and written (not a dry run), the file then holds these lines, one after the
  other.  A file with \<open>NoDisplay=false\<close> under \<open>[Desktop Entry]\<close> ends with
  \<open>NoDisplay=true\<close> directly under the header and without the old line.
\<close>

theorem no_display_lines_spec:
  "no_display_lines ls =
     (if \<exists>l\<in>set (other_lines ls). is_header_line l
      then takeWhile (\<lambda>l. \<not> is_header_line l) (other_lines ls)
             @ [hd (dropWhile (\<lambda>l. \<not> is_header_line l) (other_lines ls)), no_display_true]
             @ tl (dropWhile (\<lambda>l. \<not> is_header_line l) (other_lines ls))
      else other_lines ls @ [desktop_entry_header, no_display_true])
   \<and> filter is_no_display_line (no_display_lines ls) = [no_display_true]
   \<and> filter (\<lambda>l. \<not> is_no_display_line l) (no_display_lines ls) =
        (if \<exists>l\<in>set (other_lines ls). is_header_line l then other_lines ls
         else other_lines ls @ [desktop_entry_header])
   \<and> (\<not> dry_run c \<and> read_text w p = Inr t \<and> can_write w p \<longrightarrow>
        add_no_display c w p
          = Inr (w\<lparr>entries :=
                   AList.update p (File (concat (no_display_lines (readlines t)))) (entries w)\<rparr>))
   \<and> no_display_lines (readlines ex_stale_flag)
        = [desktop_entry_header, no_display_true, ''Name=X'' @ [NL]]"
proof (intro conjI impI)
  show "no_display_lines (readlines ex_stale_flag)
        = [desktop_entry_header, no_display_true, ''Name=X'' @ [NL]]"
    by code_simp
next
  assume "\<not> dry_run c \<and> read_text w p = Inr t \<and> can_write w p"
  then show "add_no_display c w p
      = Inr (w\<lparr>entries :=
               AList.update p (File (concat (no_display_lines (readlines t)))) (entries w)\<rparr>)"
    by (intro add_no_display_ok) simp_all
qed (rule no_display_lines_eq no_display_lines_flag no_display_lines_others)+

theorem no_display_lines_spec_witness:
  "\<not> dry_run ex_cleaner
   \<and> read_text (ex_user_fs ex_stale_flag) ''/home/u/.local/share/applications/x.desktop''
        = Inr ex_stale_flag
   \<and> can_write (ex_user_fs ex_stale_flag) ''/home/u/.local/share/applications/x.desktop''
   \<and> (\<exists>l\<in>set (other_lines (readlines ex_stale_flag)). is_header_line l)
   \<and> other_lines (readlines ex_stale_flag) = [desktop_entry_header, ''Name=X'' @ [NL]]
   \<and> filter is_no_display_line (no_display_lines (readlines ex_stale_flag)) = [no_display_true]
   \<and> filter (\<lambda>l. \<not> is_no_display_line l) (no_display_lines (readlines ex_stale_flag))
        = [desktop_entry_header, ''Name=X'' @ [NL]]
   \<and> add_no_display ex_cleaner (ex_user_fs ex_stale_flag)
          ''/home/u/.local/share/applications/x.desktop''
        = Inr ((ex_user_fs ex_stale_flag)\<lparr>entries :=
                 AList.update ''/home/u/.local/share/applications/x.desktop''
                   (File (concat [desktop_entry_header, no_display_true, ''Name=X'' @ [NL]]))
                   (entries (ex_user_fs ex_stale_flag))\<rparr>)"
proof -
  have d: "\<not> dry_run ex_cleaner" by code_simp
  have r: "read_text (ex_user_fs ex_stale_flag) ''/home/u/.local/share/applications/x.desktop''
        = Inr ex_stale_flag" by code_simp
  have cw: "can_write (ex_user_fs ex_stale_flag) ''/home/u/.local/share/applications/x.desktop''"
    by code_simp
  have o: "other_lines (readlines ex_stale_flag) = [desktop_entry_header, ''Name=X'' @ [NL]]"
    by code_simp
  have h: "\<exists>l\<in>set (other_lines (readlines ex_stale_flag)). is_header_line l"
    by code_simp
  note t = no_display_lines_spec[of "readlines ex_stale_flag" ex_cleaner "ex_user_fs ex_stale_flag"
      "''/home/u/.local/share/applications/x.desktop''" ex_stale_flag]
  note t2 = t[THEN conjunct2, THEN conjunct1]
  note t3 = t[THEN conjunct2, THEN conjunct2, THEN conjunct1]
  note t4 = t[THEN conjunct2, THEN conjunct2, THEN conjunct2, THEN conjunct1]
  note t5 = t[THEN conjunct2, THEN conjunct2, THEN conjunct2, THEN conjunct2]
  have a: "filter (\<lambda>l. \<not> is_no_display_line l) (no_display_lines (readlines ex_stale_flag))
        = [desktop_entry_header, ''Name=X'' @ [NL]]"
    using t3 h by (simp only: if_True o)
  from t4 d r cw have "add_no_display ex_cleaner (ex_user_fs ex_stale_flag)
          ''/home/u/.local/share/applications/x.desktop''
        = Inr ((ex_user_fs ex_stale_flag)\<lparr>entries :=
                 AList.update ''/home/u/.local/share/applications/x.desktop''
                   (File (concat (no_display_lines (readlines ex_stale_flag))))
                   (entries (ex_user_fs ex_stale_flag))\<rparr>)"
    by blast
  then have b: "add_no_display ex_cleaner (ex_user_fs ex_stale_flag)
          ''/home/u/.local/share/applications/x.desktop''
        = Inr ((ex_user_fs ex_stale_flag)\<lparr>entries :=
                 AList.update ''/home/u/.local/share/applications/x.desktop''
                   (File (concat [desktop_entry_header, no_display_true, ''Name=X'' @ [NL]]))
                   (entries (ex_user_fs ex_stale_flag))\<rparr>)"
    by (simp only: t5)
  from d r cw h o t2 a b show ?thesis by (intro conjI)
qed

section \<open>Hiding duplicates: what a step writes\<close>



lemma write_text_frame: "write_text w p s = Inr w' \<Longrightarrow> q \<noteq> p \<Longrightarrow> lookup w' q = lookup w q"
  by (auto simp: write_text_def lookup_update split: if_splits)

lemma write_text_at: "write_text w p s = Inr w' \<Longrightarrow> lookup w' p = Some (File s)"
  by (auto simp: write_text_def lookup_update split: if_splits)

lemma create_hide_override_frame:
  assumes "create_hide_override c w d l app = Inr w'" and "q \<noteq> l"
  shows "lookup w' q = lookup w q"
proof (cases "dry_run c")
  case True
  with assms show ?thesis by (simp add: create_hide_override_def)
next
  case False
  with assms(1) have "write_text w l (hide_stub app) = Inr w'"
    by (simp add: create_hide_override_def split: sum.splits)
  then show ?thesis using assms(2) by (rule write_text_frame)
qed

lemma add_no_display_frame:
  assumes "add_no_display c w d = Inr w'" and "q \<noteq> d"
  shows "lookup w' q = lookup w q"
proof (cases "dry_run c")
  case True
  with assms show ?thesis by (simp add: add_no_display_def)
next
  case False
  with assms(1) obtain t where "write_text w d t = Inr w'"
    by (simp add: add_no_display_def split: sum.splits)
  then show ?thesis using assms(2) by (rule write_text_frame)
qed

lemma hide_one_cases:
  assumes "hide_one app d (n, c, w) = (n', c', w')"
  obtains (system_ok) "is_system_file d"
      "create_hide_override c w d (joinpath (user_apps_dir c) (path_name d)) app = Inr w'"
      "n' = n + 1" "c' = c"
    | (user_ok) "\<not> is_system_file d" "is_user_file c d" "add_no_display c w d = Inr w'"
      "n' = n + 1" "c' = c"
    | (failed) "is_system_file d \<or> is_user_file c d" "n' = n" "c' = log_error d c" "w' = w"
    | (skipped) "\<not> is_system_file d" "\<not> is_user_file c d" "n' = n" "c' = c" "w' = w"
proof (cases "is_system_file d")
  case True
  show ?thesis
  proof (cases "create_hide_override c w d (joinpath (user_apps_dir c) (path_name d)) app")
    case (Inl e)
    with True assms have "n' = n" "c' = log_error d c" "w' = w"
      by (simp_all add: hide_one_def)
    with True show ?thesis by (intro failed) simp_all
  next
    case (Inr v)
    with True assms have "n' = n + 1" "c' = c" "w' = v"
      by (simp_all add: hide_one_def)
    with True Inr show ?thesis by (intro system_ok) simp_all
  qed
next
  case False
  show ?thesis
  proof (cases "is_user_file c d")
    case u: True
    show ?thesis
    proof (cases "add_no_display c w d")
      case (Inl e)
      with False u assms have "n' = n" "c' = log_error d c" "w' = w"
        by (simp_all add: hide_one_def)
      with u show ?thesis by (intro failed) simp_all
    next
      case (Inr v)
      with False u assms have "n' = n + 1" "c' = c" "w' = v"
        by (simp_all add: hide_one_def)
      with False u Inr show ?thesis by (intro user_ok) simp_all
    qed
  next
    case nu: False
    with False assms have "n' = n" "c' = c" "w' = w"
      by (simp_all add: hide_one_def)
    with False nu show ?thesis by (intro skipped) simp_all
  qed
qed

lemma hide_one_cleaner:
  assumes "hide_one app d (n, c, w) = (n', c', w')"
  shows "home c' = home c" "dry_run c' = dry_run c" "stats c' = stats c"
  using assms by (cases rule: hide_one_cases; simp add: log_error_def)+

lemma hide_one_frame:
  assumes "hide_one app d (n, c, w) = (n', c', w')" and "q \<noteq> hide_target c d"
  shows "lookup w' q = lookup w q"
  using assms(1)
proof (cases rule: hide_one_cases)
  case system_ok
  with assms(2) show ?thesis
    by (intro create_hide_override_frame[OF system_ok(2)]) (simp add: hide_target_def)
next
  case user_ok
  with assms(2) show ?thesis
    by (intro add_no_display_frame[OF user_ok(3)]) (simp add: hide_target_def)
qed simp_all

lemma user_apps_dir_home: "home c' = home c \<Longrightarrow> user_apps_dir c' = user_apps_dir c"
  by (simp add: user_apps_dir_def)

lemma hide_target_home: "home c' = home c \<Longrightarrow> hide_target c' d = hide_target c d"
  by (simp add: hide_target_def user_apps_dir_def)


lemma fold_hide_one_cleaner:
  "fold (hide_one app) ds (n, c, w) = (n', c', w') \<Longrightarrow>
     home c' = home c \<and> dry_run c' = dry_run c \<and> stats c' = stats c"
proof (induction ds arbitrary: n c w)
  case Nil
  then show ?case by simp
next
  case (Cons d ds)
  obtain n1 c1 w1 where s: "hide_one app d (n, c, w) = (n1, c1, w1)"
    by (cases "hide_one app d (n, c, w)") auto
  with Cons.prems have "fold (hide_one app) ds (n1, c1, w1) = (n', c', w')" by simp
  from Cons.IH[OF this] hide_one_cleaner[OF s] show ?case by simp
qed

lemma fold_hide_one_frame:
  "fold (hide_one app) ds (n, c, w) = (n', c', w') \<Longrightarrow> q \<notin> hide_target c ` set ds \<Longrightarrow>
     lookup w' q = lookup w q"
proof (induction ds arbitrary: n c w)
  case Nil
  then show ?case by simp
next
  case (Cons d ds)
  obtain n1 c1 w1 where s: "hide_one app d (n, c, w) = (n1, c1, w1)"
    by (cases "hide_one app d (n, c, w)") auto
  with Cons.prems have f: "fold (hide_one app) ds (n1, c1, w1) = (n', c', w')" by simp
  have h: "home c1 = home c" using hide_one_cleaner[OF s] by simp
  from Cons.prems(2) have "q \<notin> hide_target c1 ` set ds" "q \<noteq> hide_target c d"
    by (auto simp: hide_target_home[OF h])
  with Cons.IH[OF f] hide_one_frame[OF s] show ?case by simp
qed






subsection \<open>The order of a group\<close>










subsection \<open>The survivor of a group\<close>


lemma prefix_joinpath: "prefix d (joinpath d n)"
  by (simp add: joinpath_def)










subsection \<open>Records under neither root\<close>



section \<open>What the operations change in the file system\<close>


subsection \<open>Primitive operations\<close>

lemma lookup_filter:
  "lookup (w\<lparr>entries := filter (\<lambda>(k, v). \<not> P k) (entries w)\<rparr>) q
     = (if P q then None else lookup w q)"
proof -
  have "map_of (filter (\<lambda>(k, v). \<not> P k) al) q = (if P q then None else map_of al q)" for al :: "(string \<times> node) list"
    by (induction al) auto
  then show ?thesis by (simp add: lookup_def)
qed

lemma unlink_frame: "unlink w p = Inr w' \<Longrightarrow> q \<noteq> p \<Longrightarrow> lookup w' q = lookup w q"
  by (auto simp: unlink_def lookup_def delete_conv' split: if_splits option.splits node.splits)

lemma rmtree_frame: "rmtree w d = Inr w' \<Longrightarrow> \<not> below d q \<Longrightarrow> lookup w' q = lookup w q"
  by (auto simp: rmtree_def lookup_filter split: if_splits)

lemma copy2_frame:
  "copy2 w src dst = Inr w' \<Longrightarrow> q \<noteq> dst \<Longrightarrow> q \<noteq> joinpath dst (path_name src) \<Longrightarrow>
     lookup w' q = lookup w q"
  by (auto simp: copy2_def Let_def lookup_update split: sum.splits if_splits)

lemma glob_parent: "p \<in> set (glob w d pre suf) \<Longrightarrow> path_parent p = d \<and> path_name p \<noteq> []"
  by (auto simp: glob_def split: if_splits)

lemma path_parent_prefix: "prefix (path_parent p) p"
proof -
  have "prefix (take n p) p" for n by (rule take_is_prefix)
  moreover have "prefix (butlast (take n p)) p" for n
    by (meson prefix_order.order_trans prefixeq_butlast take_is_prefix)
  ultimately show ?thesis by (simp add: path_parent_def Let_def)
qed

lemma glob_prefix: "p \<in> set (glob w d pre suf) \<Longrightarrow> prefix d p"
  using glob_parent[of p w d pre suf] path_parent_prefix[of p] by auto

lemma below_prefix: "below d q \<Longrightarrow> prefix d q"
  by (auto simp: below_def prefix_def)

lemma prefix_trans': "prefix a b \<Longrightarrow> prefix b c \<Longrightarrow> prefix a c"
  by (rule prefix_order.order_trans)

subsection \<open>The purge writes under the user's directory only\<close>

lemma log_error_fields [simp]:
  "home (log_error p c) = home c" "dry_run (log_error p c) = dry_run c"
  "stats (log_error p c) = stats c"
  by (simp_all add: log_error_def)

lemma remove_wine_file_frame:
  assumes "remove_wine_file p (n, c, w) = (n', c', w')"
  shows "home c' = home c \<and> dry_run c' = dry_run c \<and> stats c' = stats c
         \<and> (\<forall>q. q \<noteq> p \<longrightarrow> lookup w' q = lookup w q)"
proof (cases "dry_run c")
  case True
  with assms show ?thesis by (simp add: remove_wine_file_def)
next
  case False
  show ?thesis
  proof (cases "unlink w p")
    case (Inl e)
    with False assms show ?thesis by (auto simp: remove_wine_file_def)
  next
    case (Inr v)
    with False assms have "w' = v" "c' = c" by (simp_all add: remove_wine_file_def)
    with Inr show ?thesis by (auto dest: unlink_frame)
  qed
qed

lemma fold_remove_wine_file_frame:
  "fold remove_wine_file ps (n, c, w) = (n', c', w') \<Longrightarrow>
     home c' = home c \<and> dry_run c' = dry_run c \<and> stats c' = stats c
     \<and> (\<forall>q. q \<notin> set ps \<longrightarrow> lookup w' q = lookup w q)"
proof (induction ps arbitrary: n c w)
  case Nil
  then show ?case by simp
next
  case (Cons p ps)
  obtain n1 c1 w1 where s: "remove_wine_file p (n, c, w) = (n1, c1, w1)"
    by (cases "remove_wine_file p (n, c, w)") auto
  with Cons.prems have f: "fold remove_wine_file ps (n1, c1, w1) = (n', c', w')" by simp
  from Cons.IH[OF f] remove_wine_file_frame[OF s] show ?case by simp
qed

lemma remove_pattern_frame:
  assumes "remove_pattern pre suf (n, c, w) = (n', c', w')"
  shows "home c' = home c \<and> dry_run c' = dry_run c \<and> stats c' = stats c
     \<and> (\<forall>q. \<not> prefix (user_apps_dir c) q \<longrightarrow> lookup w' q = lookup w q)"
proof -
  from assms have f: "fold remove_wine_file (glob w (user_apps_dir c) pre suf) (n, c, w) = (n', c', w')"
    by (simp add: remove_pattern_def)
  have "q \<notin> set (glob w (user_apps_dir c) pre suf)" if "\<not> prefix (user_apps_dir c) q" for q
    using that glob_prefix by blast
  with fold_remove_wine_file_frame[OF f] show ?thesis by simp
qed

lemma remove_backup_dir_frame:
  assumes "remove_backup_dir d (n, c, w) = (n', c', w')"
  shows "home c' = home c \<and> dry_run c' = dry_run c \<and> stats c' = stats c
         \<and> (\<forall>q. \<not> below d q \<longrightarrow> lookup w' q = lookup w q)"
proof (cases "is_dir w d \<and> glob w d ''wine-'' ''.desktop'' \<noteq> [] \<and> \<not> dry_run c")
  case False
  with assms show ?thesis by (auto simp: remove_backup_dir_def Let_def split: if_splits)
next
  case True
  show ?thesis
  proof (cases "rmtree w d")
    case (Inl e)
    with True assms show ?thesis by (auto simp: remove_backup_dir_def Let_def)
  next
    case (Inr v)
    with True assms have "w' = v" "c' = c" by (simp_all add: remove_backup_dir_def Let_def)
    with Inr show ?thesis by (auto dest: rmtree_frame)
  qed
qed

lemma fold_remove_backup_dir_frame:
  "fold remove_backup_dir ds (n, c, w) = (n', c', w') \<Longrightarrow>
     home c' = home c \<and> dry_run c' = dry_run c \<and> stats c' = stats c
     \<and> (\<forall>q. (\<forall>d\<in>set ds. \<not> below d q) \<longrightarrow> lookup w' q = lookup w q)"
proof (induction ds arbitrary: n c w)
  case Nil
  then show ?case by simp
next
  case (Cons d ds)
  obtain n1 c1 w1 where s: "remove_backup_dir d (n, c, w) = (n1, c1, w1)"
    by (cases "remove_backup_dir d (n, c, w)") auto
  with Cons.prems have f: "fold remove_backup_dir ds (n1, c1, w1) = (n', c', w')" by simp
  from Cons.IH[OF f] remove_backup_dir_frame[OF s] show ?case by simp
qed

lemma remove_wine_files_frame:
  assumes "remove_wine_files c w = (n', c', w')"
  shows "home c' = home c \<and> dry_run c' = dry_run c
     \<and> (\<forall>q. \<not> prefix (user_apps_dir c) q \<longrightarrow> lookup w' q = lookup w q)"
proof -
  obtain n1 c1 w1 where s1: "remove_pattern ''wine-extension-'' ''.desktop'' (0, c, w) = (n1, c1, w1)"
    by (cases "remove_pattern ''wine-extension-'' ''.desktop'' (0, c, w)") auto
  obtain n2 c2 w2 where s2: "remove_pattern ''wine-protocol-'' ''.desktop'' (n1, c1, w1) = (n2, c2, w2)"
    by (cases "remove_pattern ''wine-protocol-'' ''.desktop'' (n1, c1, w1)") auto
  obtain n3 c3 w3 where s3:
    "fold remove_backup_dir (glob w2 (user_apps_dir c2) ''backup_'' []) (n2, c2, w2) = (n3, c3, w3)"
    by (cases "fold remove_backup_dir (glob w2 (user_apps_dir c2) ''backup_'' []) (n2, c2, w2)") auto
  from assms s1 s2 s3 have r: "w' = w3" "c' = c3\<lparr>stats := (stats c3)\<lparr>wine_files_removed := n3\<rparr>\<rparr>"
    by (auto simp: remove_wine_files_def)
  note f1 = remove_pattern_frame[OF s1]
  note f2 = remove_pattern_frame[OF s2]
  note f3 = fold_remove_backup_dir_frame[OF s3]
  have u: "user_apps_dir c1 = user_apps_dir c" "user_apps_dir c2 = user_apps_dir c"
    using f1 f2 by (simp_all add: user_apps_dir_def)
  have "\<forall>d\<in>set (glob w2 (user_apps_dir c2) ''backup_'' []). \<not> below d q"
    if "\<not> prefix (user_apps_dir c) q" for q
  proof
    fix d assume "d \<in> set (glob w2 (user_apps_dir c2) ''backup_'' [])"
    then have "prefix (user_apps_dir c) d" using glob_prefix u by metis
    with that show "\<not> below d q" using below_prefix prefix_trans' by blast
  qed
  with f1 f2 f3 u r show ?thesis by simp
qed

subsection \<open>Hiding writes under the user's directory only\<close>

lemma hide_target_outside:
  assumes "\<not> prefix (user_apps_dir c) q" and "is_system_file q"
  shows "q \<noteq> hide_target c d"
proof (cases "is_system_file d")
  case True
  then have "prefix (user_apps_dir c) (hide_target c d)"
    by (simp add: hide_target_def prefix_joinpath)
  with assms(1) show ?thesis by auto
next
  case False
  with assms(2) show ?thesis by (auto simp: hide_target_def)
qed

lemma hide_groups_frame:
  "hide_groups gs (n, c, w) = (r, n', c', w') \<Longrightarrow>
     home c' = home c \<and> dry_run c' = dry_run c \<and> stats c' = stats c
     \<and> (\<forall>q. is_system_file q \<and> \<not> prefix (user_apps_dir c) q \<longrightarrow> lookup w' q = lookup w q)"
proof (induction gs arbitrary: n c w)
  case Nil
  then show ?case by simp
next
  case (Cons g gs)
  obtain app files where g: "g = (app, files)" by (cases g)
  show ?case
  proof (cases "sort_files c files")
    case Nil
    with Cons.prems g show ?thesis by simp
  next
    case (Cons primary dups)
    obtain n1 c1 w1 where s: "fold (hide_one app) dups (n, c, w) = (n1, c1, w1)"
      by (cases "fold (hide_one app) dups (n, c, w)") auto
    with Cons.prems g Cons have f: "hide_groups gs (n1, c1, w1) = (r, n', c', w')" by simp
    note c1 = fold_hide_one_cleaner[OF s]
    have u: "user_apps_dir c1 = user_apps_dir c" using c1 by (simp add: user_apps_dir_def)
    have "lookup w1 q = lookup w q" if "is_system_file q" "\<not> prefix (user_apps_dir c) q" for q
      using fold_hide_one_frame[OF s, of q] hide_target_outside[OF that(2,1)] by blast
    with Cons.IH[OF f] c1 u show ?thesis by simp
  qed
qed

lemma hide_duplicate_applications_frame:
  assumes "hide_duplicate_applications c w dups = (r, c', w')"
  shows "home c' = home c \<and> dry_run c' = dry_run c
     \<and> (\<forall>q. is_system_file q \<and> \<not> prefix (user_apps_dir c) q \<longrightarrow> lookup w' q = lookup w q)"
proof -
  obtain e n1 c1 w1 where s: "hide_groups dups (0, c, w) = (e, n1, c1, w1)"
    by (cases "hide_groups dups (0, c, w)") auto
  from assms s have "w' = w1" "home c' = home c1" "dry_run c' = dry_run c1"
    by (auto simp: hide_duplicate_applications_def split: option.splits)
  with hide_groups_frame[OF s] show ?thesis by simp
qed

subsection \<open>The scan writes nothing\<close>

lemma log_warning_fields [simp]:
  "home (log_warning p c) = home c" "dry_run (log_warning p c) = dry_run c"
  "stats (log_warning p c) = stats c"
  by (simp_all add: log_warning_def)

lemma scan_file_cleaner:
  "scan_file w p (idx, c) = (idx', c') \<Longrightarrow>
     home c' = home c \<and> dry_run c' = dry_run c \<and> stats c' = stats c"
  by (auto simp: scan_file_def parse_desktop_file_def split: sum.splits option.splits if_splits)

lemma fold_scan_file_cleaner:
  "fold (scan_file w) ps (idx, c) = (idx', c') \<Longrightarrow>
     home c' = home c \<and> dry_run c' = dry_run c \<and> stats c' = stats c"
proof (induction ps arbitrary: idx c)
  case Nil
  then show ?case by simp
next
  case (Cons p ps)
  obtain i1 c1 where s: "scan_file w p (idx, c) = (i1, c1)"
    by (cases "scan_file w p (idx, c)") auto
  with Cons.prems have "fold (scan_file w) ps (i1, c1) = (idx', c')" by simp
  from Cons.IH[OF this] scan_file_cleaner[OF s] show ?case by simp
qed

lemma find_duplicate_applications_cleaner:
  assumes "find_duplicate_applications c w = (dups, c')"
  shows "home c' = home c \<and> dry_run c' = dry_run c \<and> stats c' = stats c"
proof -
  obtain i1 c1 where s: "fold (scan_file w) (find_desktop_files c w) ([], c) = (i1, c1)"
    by (cases "fold (scan_file w) (find_desktop_files c w) ([], c)") auto
  with assms have "c' = c1" by (simp add: find_duplicate_applications_def)
  with fold_scan_file_cleaner[OF s] show ?thesis by simp
qed

subsection \<open>Cleaning an association file writes the file and its backup only\<close>

lemma clean_mime_file_frame:
  assumes "clean_mime_file c w p = (r, c', w')"
  shows "home c' = home c \<and> dry_run c' = dry_run c
     \<and> (\<forall>bf q. with_suffix p ''.list.bak'' = Inr bf \<and> q \<noteq> p \<and> q \<noteq> bf
              \<and> q \<noteq> joinpath bf (path_name p) \<longrightarrow> lookup w' q = lookup w q)
     \<and> (isl (with_suffix p ''.list.bak'') \<longrightarrow> w' = w)"
proof (cases "with_suffix p ''.list.bak''")
  case (Inl e)
  with assms show ?thesis by (simp add: clean_mime_file_def)
next
  case (Inr bf)
  show ?thesis
  proof (cases "dry_run c")
    case True
    with assms Inr show ?thesis
      by (auto simp: clean_mime_file_def split: sum.splits)
  next
    case False
    show ?thesis
    proof (cases "copy2 w p bf")
      case (Inl e)
      with assms Inr False show ?thesis by (simp add: clean_mime_file_def)
    next
      case cp: (Inr w1)
      define c1 where "c1 = c\<lparr>stats := (stats c)\<lparr>backups_created := backups_created (stats c) + 1\<rparr>\<rparr>"
      have k: "lookup w1 q = lookup w q" if "q \<noteq> bf" "q \<noteq> joinpath bf (path_name p)" for q
        using copy2_frame[OF cp that] .
      show ?thesis
      proof (cases "read_text w1 p")
        case (Inl e)
        with assms Inr False cp k show ?thesis by (auto simp: clean_mime_file_def)
      next
        case rd: (Inr content)
        show ?thesis
        proof (cases "write_text w1 p (clean_content content)")
          case (Inl e)
          with assms Inr False cp rd k show ?thesis by (auto simp: clean_mime_file_def)
        next
          case wr: (Inr w2)
          with assms Inr False cp rd have "w' = w2" "home c' = home c" "dry_run c' = dry_run c"
            by (auto simp: clean_mime_file_def)
          with k write_text_frame[OF wr] Inr show ?thesis by auto
        qed
      qed
    qed
  qed
qed

subsection \<open>Where the cleaner's own paths lie\<close>

lemma user_apps_dir_eq: "user_apps_dir c = home_slash c @ ''.local/share/applications''"
  by (simp add: user_apps_dir_def joinpath_def home_slash_def)

lemma config_mime_file_eq: "config_mime_file c = (home_slash c @ ''.config'') @ ''/mimeapps.list''"
  by (simp add: config_mime_file_def joinpath_def home_slash_def)

lemma user_mime_file_eq: "user_mime_file c = user_apps_dir c @ ''/mimeapps.list''"
  by (simp add: user_mime_file_def joinpath_def user_apps_dir_eq)

lemma path_name_mimeapps: "path_name (d @ ''/mimeapps.list'') = ''mimeapps.list''"
  by (simp add: path_name_def)

lemma with_suffix_mimeapps:
  "with_suffix (d @ ''/mimeapps.list'') ''.list.bak'' = Inr (d @ ''/mimeapps.list.bak'')"
proof -
  have n: "path_name (d @ ''/mimeapps.list'') = ''mimeapps.list''" by (rule path_name_mimeapps)
  have s: "path_suffix (d @ ''/mimeapps.list'') = ''.list''"
    unfolding path_suffix_def n by (simp add: Let_def)
  have "take (length (d @ ''/mimeapps.list'') - length ''.list'') (d @ ''/mimeapps.list'')
      = d @ ''/mimeapps''" by simp
  then show ?thesis unfolding with_suffix_def n s by simp
qed

lemma joinpath_bak: "joinpath (d @ ''/mimeapps.list.bak'') ''mimeapps.list''
    = d @ ''/mimeapps.list.bak/mimeapps.list''"
  by (simp add: joinpath_def)

lemma last_of_snoc: "s = xs @ [x] \<Longrightarrow> last s = x"
  by simp

lemma system_not_under_home:
  assumes "\<not> prefix system_apps_dir (home c)" and "prefix system_apps_dir q"
  shows "\<not> prefix (home_slash c @ ''.'') q"
proof
  assume "prefix (home_slash c @ ''.'') q"
  with assms(2) consider "prefix system_apps_dir (home_slash c @ ''.'')"
    | "prefix (home_slash c @ ''.'') system_apps_dir"
    using prefix_same_cases by blast
  then show False
  proof cases
    case 1
    have "system_apps_dir \<noteq> home_slash c @ ''.''"
    proof
      assume "system_apps_dir = home_slash c @ ''.''"
      then have "last system_apps_dir = CHR ''.''" by (rule last_of_snoc)
      then show False by (simp add: system_apps_dir_def)
    qed
    with 1 have h: "prefix system_apps_dir (home_slash c)" by simp
    show False
    proof (cases "home c \<noteq> [] \<and> last (home c) = CHR ''/''")
      case True
      with h assms(1) show False by (simp add: home_slash_def)
    next
      case False
      with h have "prefix system_apps_dir (home c @ ''/'')" by (simp add: home_slash_def)
      moreover have "system_apps_dir \<noteq> home c @ ''/''"
      proof
        assume "system_apps_dir = home c @ ''/''"
        then have "last system_apps_dir = CHR ''/''" by (rule last_of_snoc)
        then show False by (simp add: system_apps_dir_def)
      qed
      ultimately show False using assms(1) by simp
    qed
  next
    case 2
    then have "set (home_slash c @ ''.'') \<subseteq> set system_apps_dir" by (rule set_mono_prefix)
    then show False by (simp add: system_apps_dir_def)
  qed
qed

lemma system_not_user:
  assumes "\<not> prefix system_apps_dir (home c)" and "is_system_file q"
  shows "\<not> prefix (user_apps_dir c) q"
proof
  assume "prefix (user_apps_dir c) q"
  moreover have "prefix (home_slash c @ ''.'') (user_apps_dir c)" by (simp add: user_apps_dir_eq)
  ultimately have "prefix (home_slash c @ ''.'') q" by (rule prefix_trans'[rotated])
  with system_not_under_home[OF assms(1)] assms(2) show False by (simp add: is_system_file_def)
qed

lemma clean_mime_step_frame:
  assumes "clean_mime_step (d @ ''/mimeapps.list'') (n, c, w) = (n', c', w')"
  shows "home c' = home c \<and> dry_run c' = dry_run c
     \<and> (\<forall>q. \<not> prefix d q \<longrightarrow> lookup w' q = lookup w q)"
proof (cases "exists w (d @ ''/mimeapps.list'')")
  case False
  with assms show ?thesis by (simp add: clean_mime_step_def)
next
  case True
  obtain r c1 w1 where s: "clean_mime_file c w (d @ ''/mimeapps.list'') = (r, c1, w1)"
    by (cases "clean_mime_file c w (d @ ''/mimeapps.list'')") auto
  with True assms have e: "w' = w1" "home c' = home c1" "dry_run c' = dry_run c1"
    by (auto simp: clean_mime_step_def split: sum.splits)
  have "lookup w1 q = lookup w q" if "\<not> prefix d q" for q
  proof -
    from that have "q \<noteq> d @ ''/mimeapps.list''" "q \<noteq> d @ ''/mimeapps.list.bak''"
      "q \<noteq> d @ ''/mimeapps.list.bak/mimeapps.list''" by auto
    with clean_mime_file_frame[OF s] show ?thesis
      by (simp add: with_suffix_mimeapps path_name_mimeapps joinpath_bak)
  qed
  with clean_mime_file_frame[OF s] e show ?thesis by simp
qed

lemma clean_mime_duplicates_frame:
  assumes "clean_mime_duplicates c w = (n', c', w')"
  shows "home c' = home c \<and> dry_run c' = dry_run c
     \<and> (\<forall>q. \<not> prefix (home_slash c @ ''.'') q \<longrightarrow> lookup w' q = lookup w q)"
proof -
  obtain n1 c1 w1 where s1: "clean_mime_step (user_mime_file c) (0, c, w) = (n1, c1, w1)"
    by (cases "clean_mime_step (user_mime_file c) (0, c, w)") auto
  obtain n2 c2 w2 where s2: "clean_mime_step (config_mime_file c) (n1, c1, w1) = (n2, c2, w2)"
    by (cases "clean_mime_step (config_mime_file c) (n1, c1, w1)") auto
  from assms s1 s2 have e: "w' = w2" "home c' = home c2" "dry_run c' = dry_run c2"
    by (auto simp: clean_mime_duplicates_def)
  note f1 = clean_mime_step_frame[OF s1[unfolded user_mime_file_eq]]
  note f2 = clean_mime_step_frame[OF s2[unfolded config_mime_file_eq]]
  have "lookup w2 q = lookup w q" if "\<not> prefix (home_slash c @ ''.'') q" for q
  proof -
    have "prefix (home_slash c @ ''.'') (user_apps_dir c)" by (simp add: user_apps_dir_eq)
    with that have a: "\<not> prefix (user_apps_dir c) q" using prefix_trans' by blast
    have "prefix (home_slash c @ ''.'') (home_slash c @ ''.config'')" by simp
    with that have b: "\<not> prefix (home_slash c @ ''.config'') q" using prefix_trans' by blast
    from a b f1 f2 show ?thesis by simp
  qed
  with f1 f2 e show ?thesis by simp
qed

lemma run_frame:
  assumes "\<not> prefix system_apps_dir (home c)" and "is_system_file q"
  shows "lookup (snd (snd (run c w))) q = lookup w q"
proof -
  obtain n1 c1 w1 where s1: "remove_wine_files c w = (n1, c1, w1)"
    by (cases "remove_wine_files c w") auto
  obtain dups c2 where s2: "find_duplicate_applications c1 w1 = (dups, c2)"
    by (cases "find_duplicate_applications c1 w1") auto
  obtain r3 c3 w3 where s3: "hide_duplicate_applications c2 w1 dups = (r3, c3, w3)"
    by (cases "hide_duplicate_applications c2 w1 dups") auto
  obtain n4 c4 w4 where s4: "clean_mime_duplicates c3 w3 = (n4, c4, w4)"
    by (cases "clean_mime_duplicates c3 w3") auto
  note f1 = remove_wine_files_frame[OF s1]
  note f2 = find_duplicate_applications_cleaner[OF s2]
  note f3 = hide_duplicate_applications_frame[OF s3]
  note f4 = clean_mime_duplicates_frame[OF s4]
  have h: "home c1 = home c" "home c2 = home c" "home c3 = home c"
    using f1 f2 f3 by simp_all
  have u: "user_apps_dir c2 = user_apps_dir c" "home_slash c3 = home_slash c"
    using h by (simp_all add: user_apps_dir_def home_slash_def)
  have nu: "\<not> prefix (user_apps_dir c) q" by (rule system_not_user[OF assms])
  have nd: "\<not> prefix (home_slash c @ ''.'') q"
    using system_not_under_home[OF assms(1)] assms(2) by (simp add: is_system_file_def)
  have l1: "lookup w1 q = lookup w q" using f1 nu by simp
  have l3: "lookup w3 q = lookup w1 q" using f3 nu u assms(2) by simp
  have l4: "lookup w4 q = lookup w3 q" using f4 nd u by simp
  have "snd (snd (run c w)) = w3 \<or> snd (snd (run c w)) = w4"
    using s1 s2 s3 s4 by (cases r3) (simp_all add: run_def)
  with l1 l3 l4 show ?thesis by auto
qed

subsection \<open>Hiding a system record\<close>

lemma path_name_no_slash: "CHR ''/'' \<notin> set (path_name p)"
proof -
  have "CHR ''/'' \<notin> set (takeWhile (\<lambda>c. c \<noteq> CHR ''/'') (rev p))"
    by (auto dest: set_takeWhileD)
  then show ?thesis by (simp add: path_name_def)
qed

lemma path_name_joinpath_user:
  assumes "n \<noteq> []" and "CHR ''/'' \<notin> set n"
  shows "path_name (joinpath (user_apps_dir c) n) = n"
proof -
  have "joinpath (user_apps_dir c) n = user_apps_dir c @ ''/'' @ n"
    using assms(1) by (simp add: joinpath_def user_apps_dir_eq)
  moreover have "takeWhile (\<lambda>c. c \<noteq> CHR ''/'') (rev n @ CHR ''/'' # rev (user_apps_dir c)) = rev n"
    using assms(2) by (simp add: takeWhile_append_sep)
  ultimately show ?thesis by (simp add: path_name_def)
qed

lemma hide_one_system:
  assumes "is_system_file d"
  shows "lookup (snd (snd (hide_one app d (n, c, w)))) (joinpath (user_apps_dir c) (path_name d))
           = lookup w (joinpath (user_apps_dir c) (path_name d))
         \<or> lookup (snd (snd (hide_one app d (n, c, w)))) (joinpath (user_apps_dir c) (path_name d))
           = Some (File (hide_stub app))"
proof -
  obtain n' c' w' where s: "hide_one app d (n, c, w) = (n', c', w')"
    by (cases "hide_one app d (n, c, w)") auto
  from s show ?thesis
  proof (cases rule: hide_one_cases)
    case system_ok
    show ?thesis
    proof (cases "dry_run c")
      case True
      with system_ok(2) s show ?thesis by (simp add: create_hide_override_def)
    next
      case False
      with system_ok(2) have "write_text w (joinpath (user_apps_dir c) (path_name d)) (hide_stub app) = Inr w'"
        by (simp add: create_hide_override_def split: sum.splits)
      from write_text_at[OF this] s show ?thesis by simp
    qed
  next
    case user_ok
    with assms show ?thesis by simp
  next
    case failed
    with s show ?thesis by simp
  next
    case skipped
    with s show ?thesis by simp
  qed
qed

lemma hide_one_system_frame:
  assumes "is_system_file d" and "q \<noteq> joinpath (user_apps_dir c) (path_name d)"
  shows "lookup (snd (snd (hide_one app d (n, c, w)))) q = lookup w q"
proof -
  obtain n' c' w' where s: "hide_one app d (n, c, w) = (n', c', w')"
    by (cases "hide_one app d (n, c, w)") auto
  from hide_one_frame[OF s, of q] assms s show ?thesis by (simp add: hide_target_def)
qed

text \<open>
  Claim C3.  The home directory is taken not to lie under the system root (the two roots
  are separate directories).  Then no operation changes what is stored at a path under
  the system root: not the whole run, and none of the purge, the resolver (for any
  grouping) and the deduplication of the association files.  Hiding a record under the
  system root changes at most one path: the file of the same name in the user's
  directory, which afterwards is as it was (dry run, or the write failed) or holds the
  four-line stub.
\<close>

theorem system_files_untouched:
  assumes "\<not> prefix system_apps_dir (home c)"
  shows
    "(is_system_file q \<longrightarrow>
        lookup (snd (snd (run c w))) q = lookup w q
        \<and> lookup (snd (snd (remove_wine_files c w))) q = lookup w q
        \<and> lookup (snd (snd (hide_duplicate_applications c w duplicates))) q = lookup w q
        \<and> lookup (snd (snd (clean_mime_duplicates c w))) q = lookup w q)
     \<and> (is_system_file d \<longrightarrow>
        is_user_file c (joinpath (user_apps_dir c) (path_name d))
        \<and> \<not> is_system_file (joinpath (user_apps_dir c) (path_name d))
        \<and> (path_name d \<noteq> [] \<longrightarrow>
             path_name (joinpath (user_apps_dir c) (path_name d)) = path_name d)
        \<and> (\<forall>p. p \<noteq> joinpath (user_apps_dir c) (path_name d) \<longrightarrow>
             lookup (snd (snd (hide_one app_name d (n, c, w)))) p = lookup w p)
        \<and> (lookup (snd (snd (hide_one app_name d (n, c, w))))
               (joinpath (user_apps_dir c) (path_name d))
             = lookup w (joinpath (user_apps_dir c) (path_name d))
             \<or> lookup (snd (snd (hide_one app_name d (n, c, w))))
                 (joinpath (user_apps_dir c) (path_name d))
               = Some (File (hide_stub app_name))))"
proof (intro conjI impI allI)
  assume q: "is_system_file q"
  have nu: "\<not> prefix (user_apps_dir c) q" by (rule system_not_user[OF assms q])
  have nd: "\<not> prefix (home_slash c @ ''.'') q"
    using system_not_under_home[OF assms] q by (simp add: is_system_file_def)
  show "lookup (snd (snd (run c w))) q = lookup w q" by (rule run_frame[OF assms q])
  show "lookup (snd (snd (remove_wine_files c w))) q = lookup w q"
    using remove_wine_files_frame[of c w] nu by (cases "remove_wine_files c w") auto
  show "lookup (snd (snd (hide_duplicate_applications c w duplicates))) q = lookup w q"
    using hide_duplicate_applications_frame[of c w duplicates] nu q
    by (cases "hide_duplicate_applications c w duplicates") auto
  show "lookup (snd (snd (clean_mime_duplicates c w))) q = lookup w q"
    using clean_mime_duplicates_frame[of c w] nd by (cases "clean_mime_duplicates c w") auto
next
  assume d: "is_system_file d"
  show u: "is_user_file c (joinpath (user_apps_dir c) (path_name d))"
    by (simp add: is_user_file_def prefix_joinpath)
  show "\<not> is_system_file (joinpath (user_apps_dir c) (path_name d))"
    using system_not_user[OF assms] u by (auto simp: is_user_file_def)
  show "lookup (snd (snd (hide_one app_name d (n, c, w))))
               (joinpath (user_apps_dir c) (path_name d))
             = lookup w (joinpath (user_apps_dir c) (path_name d))
             \<or> lookup (snd (snd (hide_one app_name d (n, c, w))))
                 (joinpath (user_apps_dir c) (path_name d))
               = Some (File (hide_stub app_name))"
    by (rule hide_one_system[OF d])
  show "path_name (joinpath (user_apps_dir c) (path_name d)) = path_name d"
    if "path_name d \<noteq> []"
    using that by (intro path_name_joinpath_user path_name_no_slash)
  show "lookup (snd (snd (hide_one app_name d (n, c, w)))) p = lookup w p"
    if "p \<noteq> joinpath (user_apps_dir c) (path_name d)" for p
    using that by (intro hide_one_system_frame[OF d])
qed

theorem system_files_untouched_witness:
  "\<not> prefix system_apps_dir (home ex_cleaner)
   \<and> is_system_file ''/usr/share/applications/firefox.desktop''
   \<and> lookup (snd (snd (run ex_cleaner ex_fs))) ''/usr/share/applications/firefox.desktop''
        = Some (File (ex_launcher ''Firefox'' []))
   \<and> joinpath (user_apps_dir ex_cleaner) (path_name ''/usr/share/applications/firefox.desktop'')
        = ''/home/u/.local/share/applications/firefox.desktop''
   \<and> lookup (snd (snd (hide_one ''Firefox'' ''/usr/share/applications/firefox.desktop''
                (0, ex_cleaner, ex_fs))))
          ''/home/u/.local/share/applications/firefox.desktop''
        = Some (File (hide_stub ''Firefox''))
   \<and> lookup (snd (snd (hide_one ''Firefox'' ''/usr/share/applications/firefox.desktop''
                (0, ex_cleaner, ex_fs))))
          ''/usr/share/applications/firefox.desktop''
        = Some (File (ex_launcher ''Firefox'' []))"
proof -
  have h: "\<not> prefix system_apps_dir (home ex_cleaner)" by code_simp
  have s: "is_system_file ''/usr/share/applications/firefox.desktop''" by code_simp
  have l: "lookup ex_fs ''/usr/share/applications/firefox.desktop''
      = Some (File (ex_launcher ''Firefox'' []))" by code_simp
  have j: "joinpath (user_apps_dir ex_cleaner) (path_name ''/usr/share/applications/firefox.desktop'')
        = ''/home/u/.local/share/applications/firefox.desktop''" by code_simp
  have k: "lookup (snd (snd (hide_one ''Firefox'' ''/usr/share/applications/firefox.desktop''
                (0, ex_cleaner, ex_fs))))
          ''/home/u/.local/share/applications/firefox.desktop''
        = Some (File (hide_stub ''Firefox''))" by code_simp
  have ne: "''/usr/share/applications/firefox.desktop''
      \<noteq> joinpath (user_apps_dir ex_cleaner) (path_name ''/usr/share/applications/firefox.desktop'')"
    by code_simp
  note t = system_files_untouched[OF h, of "''/usr/share/applications/firefox.desktop''" ex_fs "[]"
      "''/usr/share/applications/firefox.desktop''" "''Firefox''" 0]
  from t s have a: "lookup (snd (snd (run ex_cleaner ex_fs))) ''/usr/share/applications/firefox.desktop''
      = lookup ex_fs ''/usr/share/applications/firefox.desktop''"
    by blast
  from t s ne have b: "lookup (snd (snd (hide_one ''Firefox'' ''/usr/share/applications/firefox.desktop''
                (0, ex_cleaner, ex_fs))))
          ''/usr/share/applications/firefox.desktop''
        = lookup ex_fs ''/usr/share/applications/firefox.desktop''"
    by blast
  from h s a[unfolded l] j k b[unfolded l] show ?thesis by (intro conjI)
qed

section \<open>Failures while cleaning an association file\<close>













end
